theory Spec2Isabelle
  imports Complex_Main "HOL-Library.Product_Lexorder"
begin

section \<open>Data model\<close>

text \<open>
  The solver of \<^verbatim>\<open>src/solver.py\<close> works on a two-dimensional numpy array of Python
  strings and on Python sets of coordinate pairs. Coordinates are pairs of Python
  integers; the exceptions the code can raise are values of the type \<open>error\<close>.
\<close>

type_synonym coord = "int \<times> int"

type_synonym move = "coord \<times> string"

type_synonym constraint = "coord set \<times> int"

datatype error = ValueError | IndexError

text \<open>
  The fields of \<^verbatim>\<open>MinesweeperConfig\<close> (\<^verbatim>\<open>src/config.py\<close>) that the solver reads, and
  the frozen module-level instance \<^verbatim>\<open>config\<close> with its default values.
\<close>

record MinesweeperConfig =
  STATE_COVERED :: string
  STATE_UNCOVERED :: string
  STATE_FLAGGED :: string
  STATE_MINE :: string
  STATE_UNKNOWN :: string
  MAX_CONFIGURATIONS :: int
  ENABLE_LOGIC_RULES :: bool
  ENABLE_PROBABILITY_CALCULATION :: bool

definition config :: MinesweeperConfig where
  "config = \<lparr> STATE_COVERED = ''covered'', STATE_UNCOVERED = ''uncovered'',
      STATE_FLAGGED = ''flagged'', STATE_MINE = ''mine'', STATE_UNKNOWN = ''unknown'',
      MAX_CONFIGURATIONS = 10000, ENABLE_LOGIC_RULES = True,
      ENABLE_PROBABILITY_CALCULATION = True \<rparr>"

text \<open>
  A board is a numpy array of dimension two: its \<open>shape\<close> (rows, columns) and its
  entries. Only the entries at indices inside the shape belong to the array; every read
  of the source goes through \<open>getitem\<close>, which is numpy's \<^verbatim>\<open>board[r, c]\<close>: a negative index
  counts from the end of its axis, and an index outside the axis raises IndexError.
\<close>

record ndarray =
  shape :: "nat \<times> nat"
  data :: "nat \<Rightarrow> nat \<Rightarrow> string"

definition wrap_index :: "nat \<Rightarrow> int \<Rightarrow> int" where
  "wrap_index n i = (if i < 0 then i + int n else i)"

definition getitem :: "ndarray \<Rightarrow> coord \<Rightarrow> error + string" where
  "getitem board rc =
     (let r = wrap_index (fst (shape board)) (fst rc);
          c = wrap_index (snd (shape board)) (snd rc)
      in if 0 \<le> r \<and> r < int (fst (shape board)) \<and> 0 \<le> c \<and> c < int (snd (shape board))
         then Inr (data board (nat r) (nat c))
         else Inl IndexError)"

text \<open>
  \<^verbatim>\<open>np.array(rows_of_strings, dtype=object)\<close> for a rectangular list of lists, as the
  tests build their boards.
\<close>

definition np_array :: "string list list \<Rightarrow> ndarray" where
  "np_array xss =
     \<lparr> shape = (length xss, (case xss of [] \<Rightarrow> 0 | xs # _ \<Rightarrow> length xs)),
       data = (\<lambda>r c. xss ! r ! c) \<rparr>"

text \<open>
  A Python set has no order of its own: a loop over it visits the elements in the order
  of the hash table of that set object, which depends on how the object was built, so
  that two equal sets can be visited in different orders. The model takes the order as
  a parameter \<open>it\<close>: for each set object that the solver loops over (its \<open>site\<close>) and
  the value of that set, the list in which the loop visits it. The sites are the set
  \<^verbatim>\<open>all_cells\<close> of \<^verbatim>\<open>enumerate_valid_configurations\<close>, the configuration at a
  given index of \<^verbatim>\<open>valid_configs\<close> in \<^verbatim>\<open>calculate_probabilities\<close>, and the set
  \<^verbatim>\<open>unrevealed\<close> that \<^verbatim>\<open>apply_logic_rules\<close> builds for the numbered cell at a given
  coordinate. Of \<open>it\<close> it is only known that it lists every element of the set once
  (\<open>set_iteration\<close>). A set object that the source visits more than once (\<^verbatim>\<open>all_cells\<close>,
  once for each number of mines; \<^verbatim>\<open>unrevealed\<close>, once for each rule) is not changed
  between the visits.
\<close>

datatype site = Frontier | Configuration nat | Unrevealed coord

type_synonym iteration = "site \<Rightarrow> coord set \<Rightarrow> coord list"

definition set_iteration :: "iteration \<Rightarrow> bool" where
  "set_iteration it = (\<forall>site S. finite S \<longrightarrow> set (it site S) = S \<and> distinct (it site S))"

section \<open>Strings and cells\<close>

text \<open>
  A string of the model is a Python string whose characters are the code points below
  256, a character being its code point. On these, \<^verbatim>\<open>str.isdigit\<close> holds for a string
  that is not empty and whose characters are the decimal digits 0 to 9 or the
  superscript digits two, three and one (code points B2, B3 and B9). \<^verbatim>\<open>int\<close> of a
  string that \<^verbatim>\<open>isdigit\<close> accepts returns the decimal value when every character is
  one of 0 to 9 and the string has at most 4300 characters (CPython's default limit
  \<^verbatim>\<open>sys.int_max_str_digits\<close>); it raises ValueError otherwise. The source calls
  \<^verbatim>\<open>int\<close> only on strings that \<^verbatim>\<open>isdigit\<close> accepts.
\<close>

definition isdecimal_char :: "char \<Rightarrow> bool" where
  "isdecimal_char c = (c \<in> set ''0123456789'')"

definition isdigit_char :: "char \<Rightarrow> bool" where
  "isdigit_char c = (isdecimal_char c \<or> c \<in> set [CHR 0xB2, CHR 0xB3, CHR 0xB9])"

definition isdigit :: "string \<Rightarrow> bool" where
  "isdigit s = (s \<noteq> [] \<and> list_all isdigit_char s)"

definition int_of_str :: "string \<Rightarrow> int" where
  "int_of_str s = foldl (\<lambda>a c. 10 * a + (int (of_char c) - 48)) 0 s"

definition int_max_str_digits :: nat where
  "int_max_str_digits = 4300"

definition int_of_digits :: "string \<Rightarrow> error + int" where
  "int_of_digits s =
     (if list_all isdecimal_char s \<and> length s \<le> int_max_str_digits then Inr (int_of_str s)
      else Inl ValueError)"

definition is_numbered_cell :: "string \<Rightarrow> bool" where
  "is_numbered_cell cell_state = (isdigit cell_state \<and> cell_state \<noteq> ''0'')"

definition get_cell_value :: "string \<Rightarrow> error + int" where
  "get_cell_value cell_state =
     (if is_numbered_cell cell_state then int_of_digits cell_state else Inr 0)"

section \<open>Enumeration of configurations\<close>

text \<open>
  \<^verbatim>\<open>itertools.combinations(xs, k)\<close>: the subsequences of length \<open>k\<close>, in the
  lexicographic order of their positions.
\<close>

fun combinations :: "'a list \<Rightarrow> nat \<Rightarrow> 'a list list" where
  "combinations xs 0 = [[]]"
| "combinations [] (Suc k) = []"
| "combinations (x # xs) (Suc k) =
     map ((#) x) (combinations xs k) @ combinations xs (Suc k)"

text \<open>
  The source's innermost loop: \<^verbatim>\<open>satisfies_all\<close> stays true when every constraint
  \<^verbatim>\<open>(cells, required_count)\<close> has \<^verbatim>\<open>len(mine_set & cells) == required_count\<close>; the
  loop breaks at the first constraint that fails.
\<close>

fun satisfies_all :: "constraint list \<Rightarrow> coord set \<Rightarrow> bool" where
  "satisfies_all [] mine_set = True"
| "satisfies_all ((cells, required_count) # constraints) mine_set =
     (if int (card (mine_set \<inter> cells)) \<noteq> required_count then False
      else satisfies_all constraints mine_set)"

text \<open>
  The union of the constraints' cell sets (\<^verbatim>\<open>all_cells.update(cells)\<close> for each).
\<close>

fun all_cells_of :: "constraint list \<Rightarrow> coord set \<Rightarrow> coord set" where
  "all_cells_of [] all_cells = all_cells"
| "all_cells_of ((cells, _) # constraints) all_cells =
     all_cells_of constraints (all_cells \<union> cells)"

text \<open>
  A loop of the source either runs to its end or leaves the function with
  \<^verbatim>\<open>return valid_configs\<close>.
\<close>

datatype 'a flow = Return 'a | Continue 'a

text \<open>
  The loop over the combinations of one size: a valid mine set is appended, and the
  function returns as soon as the result holds \<^verbatim>\<open>max_iterations\<close> configurations.
\<close>

fun combination_loop ::
  "constraint list \<Rightarrow> int \<Rightarrow> coord list list \<Rightarrow> coord set list \<Rightarrow> coord set list flow" where
  "combination_loop constraints max_iterations [] valid_configs = Continue valid_configs"
| "combination_loop constraints max_iterations (mine_combination # rest) valid_configs =
     (let mine_set = set mine_combination;
          valid_configs' = (if satisfies_all constraints mine_set
                            then valid_configs @ [mine_set] else valid_configs)
      in if int (length valid_configs') \<ge> max_iterations then Return valid_configs'
         else combination_loop constraints max_iterations rest valid_configs')"

text \<open>The loop over the numbers of mines, \<^verbatim>\<open>range(len(all_cells) + 1)\<close>.\<close>

fun num_mines_loop ::
  "constraint list \<Rightarrow> int \<Rightarrow> coord list \<Rightarrow> nat list \<Rightarrow> coord set list \<Rightarrow> coord set list" where
  "num_mines_loop constraints max_iterations cells [] valid_configs = valid_configs"
| "num_mines_loop constraints max_iterations cells (num_mines # rest) valid_configs =
     (case combination_loop constraints max_iterations (combinations cells num_mines) valid_configs of
        Return result \<Rightarrow> result
      | Continue valid_configs' \<Rightarrow>
          num_mines_loop constraints max_iterations cells rest valid_configs')"

definition enumerate_valid_configurations ::
  "iteration \<Rightarrow> constraint list \<Rightarrow> int \<Rightarrow> coord set list" where
  "enumerate_valid_configurations it constraints max_iterations =
     (let all_cells = all_cells_of constraints {}
      in if all_cells = {} then []
         else num_mines_loop constraints max_iterations (it Frontier all_cells)
                [0 ..< card all_cells + 1] [])"

section \<open>Board geometry and cell queries\<close>

text \<open>
  \<^verbatim>\<open>get_neighbors\<close> (\<^verbatim>\<open>src/board_manager.py\<close>): ValueError for a cell outside the board,
  otherwise the set of the coordinates \<^verbatim>\<open>(row + dr, col + dc)\<close>, \<^verbatim>\<open>dr\<close> and \<^verbatim>\<open>dc\<close> in
  \<^verbatim>\<open>[-1, 0, 1]\<close> and not both zero, that lie inside the board.
\<close>

definition get_neighbors :: "int \<Rightarrow> int \<Rightarrow> int \<Rightarrow> int \<Rightarrow> error + coord set" where
  "get_neighbors rows cols row col =
     (if \<not> (0 \<le> row \<and> row < rows \<and> 0 \<le> col \<and> col < cols) then Inl ValueError
      else Inr (set [(row + dr, col + dc). dr \<leftarrow> [-1, 0, 1], dc \<leftarrow> [-1, 0, 1],
                     \<not> (dr = 0 \<and> dc = 0),
                     0 \<le> row + dr \<and> row + dr < rows \<and> 0 \<le> col + dc \<and> col + dc < cols]))"

text \<open>
  The nested loops \<^verbatim>\<open>for row in range(rows): for col in range(cols)\<close> visit the
  coordinates of the board in this order.
\<close>

definition grid :: "nat \<times> nat \<Rightarrow> coord list" where
  "grid sh = [(int row, int col). row \<leftarrow> [0 ..< fst sh], col \<leftarrow> [0 ..< snd sh]]"

fun numbered_loop :: "ndarray \<Rightarrow> coord list \<Rightarrow> coord list \<Rightarrow> error + coord list" where
  "numbered_loop board [] numbered = Inr numbered"
| "numbered_loop board (rc # rest) numbered =
     (case getitem board rc of
        Inl e \<Rightarrow> Inl e
      | Inr cell_state \<Rightarrow>
          numbered_loop board rest
            (if is_numbered_cell cell_state then numbered @ [rc] else numbered))"

definition get_numbered_cells :: "ndarray \<Rightarrow> error + coord list" where
  "get_numbered_cells board = numbered_loop board (grid (shape board)) []"

text \<open>
  The set comprehension \<^verbatim>\<open>{n for n in neighbors if board[n] == state}\<close>: it raises when
  a read of the board raises.
\<close>

definition neighbors_in_state :: "ndarray \<Rightarrow> coord set \<Rightarrow> string \<Rightarrow> error + coord set" where
  "neighbors_in_state board neighbors state =
     (if \<exists>n \<in> neighbors. getitem board n = Inl IndexError then Inl IndexError
      else Inr {n \<in> neighbors. getitem board n = Inr state})"

definition get_unrevealed_neighbors :: "ndarray \<Rightarrow> int \<Rightarrow> int \<Rightarrow> error + coord set" where
  "get_unrevealed_neighbors board row col =
     (case get_neighbors (int (fst (shape board))) (int (snd (shape board))) row col of
        Inl e \<Rightarrow> Inl e
      | Inr neighbors \<Rightarrow> neighbors_in_state board neighbors (STATE_COVERED config))"

definition get_flagged_neighbors :: "ndarray \<Rightarrow> int \<Rightarrow> int \<Rightarrow> error + coord set" where
  "get_flagged_neighbors board row col =
     (case get_neighbors (int (fst (shape board))) (int (snd (shape board))) row col of
        Inl e \<Rightarrow> Inl e
      | Inr neighbors \<Rightarrow> neighbors_in_state board neighbors (STATE_FLAGGED config))"

section \<open>Logic rules and constraints\<close>

text \<open>
  The body of the loop of \<^verbatim>\<open>apply_logic_rules\<close> for one numbered cell: both rules are
  tested, one after the other, and each appends one move per element of \<^verbatim>\<open>unrevealed\<close>,
  in the order in which the loop visits that set object, the one built for this cell.
\<close>

definition logic_rules_step :: "iteration \<Rightarrow> ndarray \<Rightarrow> coord \<Rightarrow> move list \<Rightarrow> error + move list" where
  "logic_rules_step it board rc moves =
     (case getitem board rc of
        Inl e \<Rightarrow> Inl e
      | Inr cell_state \<Rightarrow>
     (case get_cell_value cell_state of
        Inl e \<Rightarrow> Inl e
      | Inr number \<Rightarrow>
     (case get_neighbors (int (fst (shape board))) (int (snd (shape board))) (fst rc) (snd rc) of
        Inl e \<Rightarrow> Inl e
      | Inr neighbors \<Rightarrow>
     (case get_unrevealed_neighbors board (fst rc) (snd rc) of
        Inl e \<Rightarrow> Inl e
      | Inr unrevealed \<Rightarrow>
     (case get_flagged_neighbors board (fst rc) (snd rc) of
        Inl e \<Rightarrow> Inl e
      | Inr flagged \<Rightarrow>
          (let moves1 = (if int (card unrevealed) + int (card flagged) = number
                         then moves @ map (\<lambda>n. (n, ''flag'')) (it (Unrevealed rc) unrevealed)
                         else moves);
               moves2 = (if int (card flagged) = number
                         then moves1 @ map (\<lambda>n. (n, ''reveal'')) (it (Unrevealed rc) unrevealed)
                         else moves1)
           in Inr moves2))))))"

fun logic_rules_loop :: "iteration \<Rightarrow> ndarray \<Rightarrow> coord list \<Rightarrow> move list \<Rightarrow> error + move list" where
  "logic_rules_loop it board [] moves = Inr moves"
| "logic_rules_loop it board (rc # rest) moves =
     (case logic_rules_step it board rc moves of
        Inl e \<Rightarrow> Inl e
      | Inr moves' \<Rightarrow> logic_rules_loop it board rest moves')"

definition apply_logic_rules :: "iteration \<Rightarrow> ndarray \<Rightarrow> error + move list" where
  "apply_logic_rules it board =
     (case get_numbered_cells board of
        Inl e \<Rightarrow> Inl e
      | Inr numbered \<Rightarrow> logic_rules_loop it board numbered [])"

fun constraint_loop :: "ndarray \<Rightarrow> coord list \<Rightarrow> constraint list \<Rightarrow> error + constraint list" where
  "constraint_loop board [] constraints = Inr constraints"
| "constraint_loop board (rc # rest) constraints =
     (case getitem board rc of
        Inl e \<Rightarrow> Inl e
      | Inr cell_state \<Rightarrow>
     (case get_cell_value cell_state of
        Inl e \<Rightarrow> Inl e
      | Inr number \<Rightarrow>
     (case get_unrevealed_neighbors board (fst rc) (snd rc) of
        Inl e \<Rightarrow> Inl e
      | Inr unrevealed \<Rightarrow>
          constraint_loop board rest
            (if unrevealed \<noteq> {} then constraints @ [(unrevealed, number)]
             else constraints))))"

definition build_constraint_set :: "ndarray \<Rightarrow> error + constraint list" where
  "build_constraint_set board =
     (case get_numbered_cells board of
        Inl e \<Rightarrow> Inl e
      | Inr numbered \<Rightarrow> constraint_loop board numbered [])"

section \<open>Probabilities\<close>

text \<open>
  A Python float is modelled by the real number it approximates: the quotient of two
  integers is the exact quotient. A dictionary is the list of its items in insertion
  order, which is the order in which a loop visits it.

  Without a mine count the source estimates one from the board's shape; for a shape that
  is no preset it computes \<^verbatim>\<open>int((rows * cols) * 0.15)\<close>, the product of the cell count
  with the double nearest to 0.15, truncated. For every cell count a board can have this
  is the integer quotient of \<open>15 * rows * cols\<close> by 100 (the product is rounded to
  the exact integer when \<open>rows * cols\<close> is a multiple of 20 and stays strictly between
  two integers otherwise).
\<close>

definition estimate_total_mines :: "nat \<times> nat \<Rightarrow> int" where
  "estimate_total_mines sh =
     (if sh = (9, 9) then 10
      else if sh = (16, 16) then 40
      else if sh = (16, 30) then 99
      else (int (fst sh * snd sh) * 15) div 100)"

fun covered_loop :: "ndarray \<Rightarrow> coord list \<Rightarrow> coord list \<times> int \<Rightarrow> error + coord list \<times> int" where
  "covered_loop board [] acc = Inr acc"
| "covered_loop board (rc # rest) (covered_cells, flagged_count) =
     (case getitem board rc of
        Inl e \<Rightarrow> Inl e
      | Inr cell_state \<Rightarrow>
          covered_loop board rest
            (if cell_state = STATE_COVERED config then (covered_cells @ [rc], flagged_count)
             else if cell_state = STATE_FLAGGED config then (covered_cells, flagged_count + 1)
             else (covered_cells, flagged_count)))"

definition calculate_simple_probability ::
  "ndarray \<Rightarrow> int option \<Rightarrow> error + (coord \<times> real) list" where
  "calculate_simple_probability board total_mines =
     (case covered_loop board (grid (shape board)) ([], 0) of
        Inl e \<Rightarrow> Inl e
      | Inr (covered_cells, flagged_count) \<Rightarrow>
          if covered_cells = [] then Inr []
          else
            (let total_mines' = (case total_mines of
                                   None \<Rightarrow> estimate_total_mines (shape board)
                                 | Some n \<Rightarrow> n);
                 remaining_mines = max 0 (total_mines' - flagged_count);
                 probability = real_of_int remaining_mines / real (length covered_cells)
             in Inr (map (\<lambda>cell. (cell, probability)) covered_cells)))"

text \<open>
  \<^verbatim>\<open>mine_counts[cell] += 1\<close> on a \<^verbatim>\<open>defaultdict(int)\<close>: a new key is added at the end
  with the count 1, the count of a present key is incremented in place. \<open>count_loop\<close>
  is the loop over \<^verbatim>\<open>valid_configs\<close>, with the index of the configuration it is at.
\<close>

fun increment :: "(coord \<times> nat) list \<Rightarrow> coord \<Rightarrow> (coord \<times> nat) list" where
  "increment [] cell = [(cell, 1)]"
| "increment ((key, n) # rest) cell =
     (if key = cell then (key, n + 1) # rest else (key, n) # increment rest cell)"

fun count_loop ::
  "iteration \<Rightarrow> nat \<Rightarrow> coord set list \<Rightarrow> (coord \<times> nat) list \<Rightarrow> (coord \<times> nat) list" where
  "count_loop it i [] mine_counts = mine_counts"
| "count_loop it i (config_mines # rest) mine_counts =
     count_loop it (Suc i) rest
       (foldl increment mine_counts (it (Configuration i) config_mines))"

definition count_mines :: "iteration \<Rightarrow> coord set list \<Rightarrow> (coord \<times> nat) list" where
  "count_mines it valid_configs = count_loop it 0 valid_configs []"

definition calculate_probabilities :: "iteration \<Rightarrow> ndarray \<Rightarrow> error + (coord \<times> real) list" where
  "calculate_probabilities it board =
     (case build_constraint_set board of
        Inl e \<Rightarrow> Inl e
      | Inr constraints \<Rightarrow>
          if constraints = [] then calculate_simple_probability board None
          else
            (let valid_configs =
                   enumerate_valid_configurations it constraints (MAX_CONFIGURATIONS config)
             in if valid_configs = [] then calculate_simple_probability board None
                else
                  (let mine_counts = count_mines it valid_configs;
                       total_configs = length valid_configs
                   in Inr (map (\<lambda>(cell, n). (cell, real n / real total_configs)) mine_counts))))"

text \<open>
  \<^verbatim>\<open>min(probabilities.items(), key=lambda x: x[1])[0]\<close>: the first item whose value no
  other item undercuts.
\<close>

fun min_item :: "coord \<times> real \<Rightarrow> (coord \<times> real) list \<Rightarrow> coord \<times> real" where
  "min_item best [] = best"
| "min_item best (item # items) = min_item (if snd item < snd best then item else best) items"

definition get_safest_cell :: "(coord \<times> real) list \<Rightarrow> coord option" where
  "get_safest_cell probabilities =
     (case probabilities of
        [] \<Rightarrow> None
      | item # items \<Rightarrow> Some (fst (min_item item items)))"

section \<open>The solver\<close>

text \<open>
  A loop that returns the first coordinate whose cell is covered.
\<close>

fun first_covered :: "ndarray \<Rightarrow> coord list \<Rightarrow> error + coord option" where
  "first_covered board [] = Inr None"
| "first_covered board (rc # rest) =
     (case getitem board rc of
        Inl e \<Rightarrow> Inl e
      | Inr cell_state \<Rightarrow>
          if cell_state = STATE_COVERED config then Inr (Some rc)
          else first_covered board rest)"

text \<open>
  \<^verbatim>\<open>_make_guess\<close> runs three such loops one after the other: over the four corners,
  over the columns (for each the cell of the first row, then the cell of the last row),
  and over the whole board. Each returns at its first covered cell, so the three are one
  loop over the three lists in sequence.
\<close>

definition guess_order :: "nat \<times> nat \<Rightarrow> coord list" where
  "guess_order sh =
     (let rows = int (fst sh); cols = int (snd sh)
      in [(0, 0), (0, cols - 1), (rows - 1, 0), (rows - 1, cols - 1)]
         @ concat (map (\<lambda>c. [(0, int c), (rows - 1, int c)]) [0 ..< snd sh])
         @ grid sh)"

definition make_guess :: "ndarray \<Rightarrow> error + move list" where
  "make_guess board =
     (case first_covered board (guess_order (shape board)) of
        Inl e \<Rightarrow> Inl e
      | Inr None \<Rightarrow> Inr []
      | Inr (Some rc) \<Rightarrow> Inr [(rc, ''reveal'')])"

text \<open>
  \<^verbatim>\<open>MinesweeperSolver.solve\<close>. The assignment to \<^verbatim>\<open>self.board\<close> is not read by the
  method and is left out; the safest cell is a pair, which Python takes as true.
  \<open>probability_phase\<close> is the method from its second phase on.
\<close>

definition probability_phase :: "iteration \<Rightarrow> ndarray \<Rightarrow> error + move list" where
  "probability_phase it board =
     (if ENABLE_PROBABILITY_CALCULATION config then
        (case calculate_probabilities it board of
           Inl e \<Rightarrow> Inl e
         | Inr probabilities \<Rightarrow>
             if probabilities \<noteq> [] then
               (case get_safest_cell probabilities of
                  Some safest_cell \<Rightarrow> Inr [(safest_cell, ''reveal'')]
                | None \<Rightarrow> make_guess board)
             else make_guess board)
      else make_guess board)"

definition solve :: "iteration \<Rightarrow> ndarray \<Rightarrow> error + move list" where
  "solve it board =
     (if ENABLE_LOGIC_RULES config then
        (case apply_logic_rules it board of
           Inl e \<Rightarrow> Inl e
         | Inr moves \<Rightarrow> if moves \<noteq> [] then Inr moves else probability_phase it board)
      else probability_phase it board)"


section \<open>The notions of the specification\<close>

text \<open>
  The frontier of a list of constraints is the union of their cell sets. A candidate
  mine set meets the constraints when it has exactly the required number of cells in
  each cell set, and the valid configurations are the subsets of the frontier that meet
  every constraint. A Python set is finite (\<open>finite_cells\<close>).
\<close>

definition frontier :: "constraint list \<Rightarrow> coord set" where
  "frontier constraints = \<Union> (fst ` set constraints)"

definition meets :: "constraint list \<Rightarrow> coord set \<Rightarrow> bool" where
  "meets constraints candidate =
     (\<forall>(cells, required) \<in> set constraints. int (card (candidate \<inter> cells)) = required)"

definition valid_configurations :: "constraint list \<Rightarrow> coord set set" where
  "valid_configurations constraints =
     {candidate \<in> Pow (frontier constraints). meets constraints candidate}"

definition finite_cells :: "constraint list \<Rightarrow> bool" where
  "finite_cells constraints = list_all (\<lambda>(cells, required). finite cells) constraints"

text \<open>
  The enumeration without a budget: the candidate mine sets in the order in which the
  loops generate them (all combinations of size 0, then of size 1, and so on), and those
  of them that satisfy the constraints.
\<close>

definition valid_of :: "constraint list \<Rightarrow> coord list list \<Rightarrow> coord set list" where
  "valid_of cs combs = filter (satisfies_all cs) (map set combs)"

definition candidates :: "coord list \<Rightarrow> nat list \<Rightarrow> coord list list" where
  "candidates cells ks = concat (map (combinations cells) ks)"

definition all_valid :: "iteration \<Rightarrow> constraint list \<Rightarrow> coord set list" where
  "all_valid it cs =
     valid_of cs (candidates (it Frontier (frontier cs)) [0 ..< card (frontier cs) + 1])"

text \<open>
  The cell at a coordinate inside the board, the coordinates inside the board, and the
  neighbours of a coordinate: the coordinates inside the board at distance 1 in the
  maximum norm. A numbered cell is one that \<open>is_numbered_cell\<close> accepts. Its string is
  a decimal number when \<^verbatim>\<open>int\<close> accepts it, and \<open>cell_number\<close> is then its value. A
  board is readable when every numbered cell holds a decimal number.
\<close>

definition cell :: "ndarray \<Rightarrow> coord \<Rightarrow> string" where
  "cell board rc = data board (nat (fst rc)) (nat (snd rc))"

definition in_bounds :: "ndarray \<Rightarrow> coord \<Rightarrow> bool" where
  "in_bounds board rc =
     (0 \<le> fst rc \<and> fst rc < int (fst (shape board)) \<and>
      0 \<le> snd rc \<and> snd rc < int (snd (shape board)))"

definition adjacent :: "coord \<Rightarrow> coord \<Rightarrow> bool" where
  "adjacent a b = (a \<noteq> b \<and> \<bar>fst a - fst b\<bar> \<le> 1 \<and> \<bar>snd a - snd b\<bar> \<le> 1)"

definition neighbors_of :: "ndarray \<Rightarrow> coord \<Rightarrow> coord set" where
  "neighbors_of board rc = Set.filter (adjacent rc) (set (grid (shape board)))"

definition covered_neighbors :: "ndarray \<Rightarrow> coord \<Rightarrow> coord set" where
  "covered_neighbors board rc =
     Set.filter (\<lambda>n. cell board n = ''covered'') (neighbors_of board rc)"

definition flagged_neighbors :: "ndarray \<Rightarrow> coord \<Rightarrow> coord set" where
  "flagged_neighbors board rc =
     Set.filter (\<lambda>n. cell board n = ''flagged'') (neighbors_of board rc)"

definition numbered_cells :: "ndarray \<Rightarrow> coord list" where
  "numbered_cells board = filter (\<lambda>rc. is_numbered_cell (cell board rc)) (grid (shape board))"

definition decimal :: "string \<Rightarrow> bool" where
  "decimal s = (list_all isdecimal_char s \<and> length s \<le> int_max_str_digits)"

definition cell_number :: "ndarray \<Rightarrow> coord \<Rightarrow> int" where
  "cell_number board rc = int_of_str (cell board rc)"

definition readable :: "ndarray \<Rightarrow> bool" where
  "readable board = list_all (\<lambda>rc. decimal (cell board rc)) (numbered_cells board)"

text \<open>
  The moves that the two rules give for one numbered cell: the saturation rule flags
  every covered neighbour, the exhaustion rule reveals every covered neighbour, and the
  flags come first.
\<close>

definition saturation_moves :: "iteration \<Rightarrow> ndarray \<Rightarrow> coord \<Rightarrow> move list" where
  "saturation_moves it board rc =
     (if int (card (covered_neighbors board rc)) + int (card (flagged_neighbors board rc))
           = cell_number board rc
      then map (\<lambda>n. (n, ''flag'')) (it (Unrevealed rc) (covered_neighbors board rc)) else [])"

definition exhaustion_moves :: "iteration \<Rightarrow> ndarray \<Rightarrow> coord \<Rightarrow> move list" where
  "exhaustion_moves it board rc =
     (if int (card (flagged_neighbors board rc)) = cell_number board rc
      then map (\<lambda>n. (n, ''reveal'')) (it (Unrevealed rc) (covered_neighbors board rc)) else [])"

definition rule_moves :: "iteration \<Rightarrow> ndarray \<Rightarrow> coord \<Rightarrow> move list" where
  "rule_moves it board rc = saturation_moves it board rc @ exhaustion_moves it board rc"

text \<open>Row-major order of coordinates.\<close>

definition row_major_less :: "coord \<Rightarrow> coord \<Rightarrow> bool" where
  "row_major_less a b = (fst a < fst b \<or> (fst a = fst b \<and> snd a < snd b))"

text \<open>
  The constraint of a numbered cell, the covered cells of a board in row-major order and
  the number of its flagged cells.
\<close>

definition constraint_of :: "ndarray \<Rightarrow> coord \<Rightarrow> constraint" where
  "constraint_of board rc = (covered_neighbors board rc, cell_number board rc)"

definition covered_cells_of :: "ndarray \<Rightarrow> coord list" where
  "covered_cells_of board = filter (\<lambda>rc. cell board rc = ''covered'') (grid (shape board))"

definition flagged_count_of :: "ndarray \<Rightarrow> nat" where
  "flagged_count_of board =
     length (filter (\<lambda>rc. cell board rc = ''flagged'') (grid (shape board)))"

text \<open>
  The uniform estimate for a board, the count that a dictionary of mine counts holds
  for a coordinate, and the number of configurations that contain a coordinate.
\<close>

definition uniform_probability :: "ndarray \<Rightarrow> real" where
  "uniform_probability board =
     real_of_int (max 0 (estimate_total_mines (shape board) - int (flagged_count_of board)))
       / real (length (covered_cells_of board))"

definition count_in :: "(coord \<times> nat) list \<Rightarrow> coord \<Rightarrow> nat" where
  "count_in mine_counts c = (case map_of mine_counts c of None \<Rightarrow> 0 | Some n \<Rightarrow> n)"

definition containing :: "coord set list \<Rightarrow> coord \<Rightarrow> nat" where
  "containing configurations c = length (filter (\<lambda>S. c \<in> S) configurations)"

text \<open>
  The mine count in the words of the specification, which rounds to the nearest integer
  where the code truncates; it is only compared with \<open>estimate_total_mines\<close>.
\<close>

definition spec_total_mines :: "nat \<times> nat \<Rightarrow> int" where
  "spec_total_mines sh =
     (if sh = (9, 9) then 10
      else if sh = (16, 16) then 40
      else if sh = (16, 30) then 99
      else round (real (fst sh * snd sh) * 0.15))"

text \<open>A board of the given shape whose cells are all covered.\<close>

definition all_covered :: "nat \<Rightarrow> nat \<Rightarrow> ndarray" where
  "all_covered rows cols = \<lparr> shape = (rows, cols), data = (\<lambda>r c. ''covered'') \<rparr>"

text \<open>
  An order for the examples: every set object is visited in the lexicographic order of
  its coordinates.
\<close>

definition sorted_order :: iteration where
  "sorted_order site S = sorted_list_of_set S"


section \<open>The enumeration loops in closed form\<close>

lemma satisfies_all_meets: "satisfies_all cs S = meets cs S"
  by (induction cs S rule: satisfies_all.induct) (auto simp: meets_def)

lemma all_cells_of_union: "all_cells_of cs A = A \<union> frontier cs"
  by (induction cs A rule: all_cells_of.induct) (auto simp: frontier_def)

lemma finite_frontier: "finite_cells cs \<Longrightarrow> finite (frontier cs)"
  by (induction cs) (auto simp: frontier_def finite_cells_def)

lemma combinations_length: "ys \<in> set (combinations xs k) \<Longrightarrow> length ys = k"
  by (induction xs k arbitrary: ys rule: combinations.induct) auto

lemma combinations_subset: "ys \<in> set (combinations xs k) \<Longrightarrow> set ys \<subseteq> set xs"
  by (induction xs k arbitrary: ys rule: combinations.induct) fastforce+

lemma combinations_distinct_elem:
  "distinct xs \<Longrightarrow> ys \<in> set (combinations xs k) \<Longrightarrow> distinct ys"
proof (induction xs k arbitrary: ys rule: combinations.induct)
  case (1 xs)
  then show ?case by simp
next
  case (2 k)
  then show ?case by simp
next
  case (3 x xs k)
  from "3.prems" have x: "x \<notin> set xs" and d: "distinct xs" by simp_all
  from "3.prems"(2) consider zs where "ys = x # zs" "zs \<in> set (combinations xs k)"
    | "ys \<in> set (combinations xs (Suc k))"
    by auto
  then show ?case
  proof cases
    case 1
    have "distinct zs" using "3.IH"(1)[OF d 1(2)] .
    moreover have "x \<notin> set zs" using combinations_subset[OF 1(2)] x by blast
    ultimately show ?thesis using 1(1) by simp
  next
    case 2
    then show ?thesis using "3.IH"(2)[OF d] by simp
  qed
qed

lemma combinations_card:
  "distinct xs \<Longrightarrow> ys \<in> set (combinations xs k) \<Longrightarrow> card (set ys) = k"
  by (simp add: combinations_distinct_elem combinations_length distinct_card)

lemma combinations_sets:
  "distinct xs \<Longrightarrow> set ` set (combinations xs k) = {S. S \<subseteq> set xs \<and> card S = k}"
proof (induction xs k rule: combinations.induct)
  case (1 xs)
  have "(S \<subseteq> set xs \<and> card S = 0) = (S = {})" for S
  proof
    assume a: "S \<subseteq> set xs \<and> card S = 0"
    then have "finite S" using finite_subset[OF _ finite_set] by blast
    with a show "S = {}" by simp
  next
    assume "S = {}"
    then show "S \<subseteq> set xs \<and> card S = 0" by simp
  qed
  then show ?case by simp
next
  case (2 k)
  have "\<not> (S \<subseteq> set [] \<and> card S = Suc k)" for S :: "'a set"
    by auto
  then show ?case by simp
next
  case (3 x xs k)
  from "3.prems" have x: "x \<notin> set xs" and d: "distinct xs" by simp_all
  have A: "set ` set (combinations xs k) = {S. S \<subseteq> set xs \<and> card S = k}"
    using "3.IH"(1)[OF d] .
  have B: "set ` set (combinations xs (Suc k)) = {S. S \<subseteq> set xs \<and> card S = Suc k}"
    using "3.IH"(2)[OF d] .
  have "set ` set (combinations (x # xs) (Suc k))
        = insert x ` (set ` set (combinations xs k)) \<union> set ` set (combinations xs (Suc k))"
    by (simp add: image_Un image_image)
  also have "\<dots> = insert x ` {S. S \<subseteq> set xs \<and> card S = k} \<union> {S. S \<subseteq> set xs \<and> card S = Suc k}"
    by (simp only: A B)
  also have "\<dots> = {S. S \<subseteq> set (x # xs) \<and> card S = Suc k}"
  proof (intro set_eqI iffI)
    fix S assume "S \<in> insert x ` {S. S \<subseteq> set xs \<and> card S = k} \<union> {S. S \<subseteq> set xs \<and> card S = Suc k}"
    then consider T where "S = insert x T" "T \<subseteq> set xs" "card T = k"
      | "S \<subseteq> set xs" "card S = Suc k"
      by blast
    then show "S \<in> {S. S \<subseteq> set (x # xs) \<and> card S = Suc k}"
    proof cases
      case 1
      have "finite T" using 1(2) by (rule finite_subset) simp
      moreover have "x \<notin> T" using 1(2) x by blast
      ultimately have "card S = Suc k" using 1 by simp
      moreover have "S \<subseteq> set (x # xs)" using 1 by auto
      ultimately show ?thesis by simp
    next
      case 2
      then show ?thesis by auto
    qed
  next
    fix S assume S: "S \<in> {S. S \<subseteq> set (x # xs) \<and> card S = Suc k}"
    show "S \<in> insert x ` {S. S \<subseteq> set xs \<and> card S = k} \<union> {S. S \<subseteq> set xs \<and> card S = Suc k}"
    proof (cases "x \<in> S")
      case True
      have "S \<subseteq> set (x # xs)" using S by simp
      then have fin: "finite S" by (rule finite_subset) simp
      have "S - {x} \<subseteq> set xs" using S by auto
      moreover have "card (S - {x}) = k" using S True fin by simp
      ultimately have "S - {x} \<in> {S. S \<subseteq> set xs \<and> card S = k}" by simp
      then have "insert x (S - {x}) \<in> insert x ` {S. S \<subseteq> set xs \<and> card S = k}"
        by (rule imageI)
      then have "S \<in> insert x ` {S. S \<subseteq> set xs \<and> card S = k}"
        by (simp only: insert_Diff[OF True])
      then show ?thesis by (rule UnI1)
    next
      case False
      have "S \<subseteq> set xs" using S False by auto
      then have "S \<in> {S. S \<subseteq> set xs \<and> card S = Suc k}" using S by simp
      then show ?thesis by (rule UnI2)
    qed
  qed
  finally show ?case .
qed

lemma combinations_distinct_sets:
  "distinct xs \<Longrightarrow> distinct (map set (combinations xs k))"
proof (induction xs k rule: combinations.induct)
  case (1 xs)
  then show ?case by simp
next
  case (2 k)
  then show ?case by simp
next
  case (3 x xs k)
  from "3.prems" have x: "x \<notin> set xs" and d: "distinct xs" by simp_all
  have inj: "inj_on (insert x) (set ` set (combinations xs k))"
    using x by (auto simp: inj_on_def dest!: combinations_subset) 
  have 1: "distinct (map (insert x) (map set (combinations xs k)))"
    using "3.IH"(1)[OF d] inj by (simp add: distinct_map comp_def inj_on_def)
  have 2: "distinct (map set (combinations xs (Suc k)))" using "3.IH"(2)[OF d] .
  have 3: "set (map (insert x) (map set (combinations xs k))) \<inter> set (map set (combinations xs (Suc k))) = {}"
    using x by (auto dest!: combinations_subset)
  have "map set (combinations (x # xs) (Suc k))
      = map (insert x) (map set (combinations xs k)) @ map set (combinations xs (Suc k))"
    by simp
  then show ?case using 1 2 3 by (simp only: distinct_append)
qed

lemma valid_of_Nil: "valid_of cs [] = []"
  by (simp add: valid_of_def)

lemma valid_of_Cons:
  "valid_of cs (c # combs) =
     (if satisfies_all cs (set c) then set c # valid_of cs combs else valid_of cs combs)"
  by (simp add: valid_of_def)

lemma valid_of_append: "valid_of cs (xs @ ys) = valid_of cs xs @ valid_of cs ys"
  by (simp add: valid_of_def)

lemma combination_loop_closed:
  "int (length acc) < m \<Longrightarrow>
   combination_loop cs m combs acc =
     (if m \<le> int (length acc + length (valid_of cs combs))
      then Return (acc @ take (nat m - length acc) (valid_of cs combs))
      else Continue (acc @ valid_of cs combs))"
proof (induction combs arbitrary: acc)
  case Nil
  then show ?case by (simp add: valid_of_Nil)
next
  case (Cons c combs)
  show ?case
  proof (cases "satisfies_all cs (set c)")
    case False
    then show ?thesis using Cons.prems Cons.IH[of acc]
      by (simp add: valid_of_Cons Let_def)
  next
    case True
    show ?thesis
    proof (cases "m \<le> int (length acc) + 1")
      case stop: True
      then have "nat m - length acc = 1" using Cons.prems by linarith
      then show ?thesis using True stop by (simp add: valid_of_Cons Let_def)
    next
      case go: False
      then have lt: "int (length (acc @ [set c])) < m" by simp
      have n: "nat m - length acc = Suc (nat m - length (acc @ [set c]))"
        using go by simp
      show ?thesis using True go Cons.IH[OF lt]
        by (simp add: valid_of_Cons Let_def n)
    qed
  qed
qed

lemma num_mines_loop_closed:
  "int (length acc) < m \<Longrightarrow>
   num_mines_loop cs m cells ks acc =
     acc @ take (nat m - length acc) (valid_of cs (candidates cells ks))"
proof (induction ks arbitrary: acc)
  case Nil
  then show ?case by (simp add: candidates_def valid_of_Nil)
next
  case (Cons k ks)
  let ?V = "valid_of cs (combinations cells k)"
  have split: "valid_of cs (candidates cells (k # ks)) = ?V @ valid_of cs (candidates cells ks)"
    by (simp add: candidates_def valid_of_append)
  show ?case
  proof (cases "m \<le> int (length acc + length ?V)")
    case True
    then have "nat m - length acc \<le> length ?V" by linarith
    then show ?thesis using True Cons.prems
      by (simp add: combination_loop_closed split)
  next
    case False
    then have lt: "int (length (acc @ ?V)) < m" by simp
    have "nat m - length acc - length ?V = nat m - length (acc @ ?V)" by simp
    moreover have "length ?V \<le> nat m - length acc" using False by linarith
    ultimately show ?thesis using False Cons.prems Cons.IH[OF lt]
      by (simp add: combination_loop_closed split)
  qed
qed

lemma enumerate_empty_frontier:
  "frontier cs = {} \<Longrightarrow> enumerate_valid_configurations it cs m = []"
  by (simp add: enumerate_valid_configurations_def all_cells_of_union)

lemma enumerate_closed:
  "0 < m \<Longrightarrow> frontier cs \<noteq> {} \<Longrightarrow>
   enumerate_valid_configurations it cs m = take (nat m) (all_valid it cs)"
  using num_mines_loop_closed[of "[]" m cs]
  by (simp add: enumerate_valid_configurations_def all_cells_of_union all_valid_def Let_def)

lemma enumerate_no_budget:
  "m \<le> 0 \<Longrightarrow> frontier cs \<noteq> {} \<Longrightarrow>
   enumerate_valid_configurations it cs m = (if satisfies_all cs {} then [{}] else [])"
  by (simp add: enumerate_valid_configurations_def all_cells_of_union Let_def upt_rec[of 0])

lemma candidates_Cons:
  "candidates xs (k # ks) = combinations xs k @ candidates xs ks"
  by (simp add: candidates_def)

lemma candidates_card:
  "distinct xs \<Longrightarrow> ys \<in> set (candidates xs ks) \<Longrightarrow> card (set ys) \<in> set ks"
  by (auto simp: candidates_def combinations_card)

lemma candidates_distinct_sets:
  "distinct xs \<Longrightarrow> distinct ks \<Longrightarrow> distinct (map set (candidates xs ks))"
proof (induction ks)
  case Nil
  then show ?case by (simp add: candidates_def)
next
  case (Cons k ks)
  have 1: "distinct (map set (combinations xs k))"
    using Cons.prems(1) by (rule combinations_distinct_sets)
  have 2: "distinct (map set (candidates xs ks))"
    using Cons by simp
  have 3: "set (map set (combinations xs k)) \<inter> set (map set (candidates xs ks)) = {}"
  proof (rule ccontr)
    assume "set (map set (combinations xs k)) \<inter> set (map set (candidates xs ks)) \<noteq> {}"
    then obtain ys zs where ys: "ys \<in> set (combinations xs k)"
      and zs: "zs \<in> set (candidates xs ks)" and eq: "set ys = set zs"
      by auto
    have "card (set ys) = k" using combinations_card[OF Cons.prems(1) ys] .
    moreover have "card (set zs) \<in> set ks" using candidates_card[OF Cons.prems(1) zs] .
    ultimately show False using eq Cons.prems(2) by simp
  qed
  show ?case using 1 2 3 by (simp add: candidates_Cons)
qed

lemma candidates_sorted_card:
  "distinct xs \<Longrightarrow> sorted ks \<Longrightarrow> sorted (map card (map set (candidates xs ks)))"
proof (induction ks)
  case Nil
  then show ?case by (simp add: candidates_def)
next
  case (Cons k ks)
  have 1: "sorted (map card (map set (combinations xs k)))"
  proof -
    have "map card (map set (combinations xs k)) = replicate (length (combinations xs k)) k"
      using combinations_card[OF Cons.prems(1)]
      by (intro replicate_eqI) auto
    then show ?thesis by (simp add: sorted_replicate)
  qed
  have 2: "sorted (map card (map set (candidates xs ks)))"
    using Cons by simp
  have 3: "\<forall>a\<in>set (map card (map set (combinations xs k))).
           \<forall>b\<in>set (map card (map set (candidates xs ks))). a \<le> b"
  proof (intro ballI)
    fix a b
    assume "a \<in> set (map card (map set (combinations xs k)))"
      and "b \<in> set (map card (map set (candidates xs ks)))"
    then have "a = k" and "b \<in> set ks"
      using combinations_card[OF Cons.prems(1)] candidates_card[OF Cons.prems(1)] by auto
    then show "a \<le> b" using Cons.prems(2) by auto
  qed
  show ?case using 1 2 3 by (simp add: candidates_Cons sorted_append)
qed

lemma candidates_sets:
  assumes "distinct xs"
  shows "set (map set (candidates xs [0 ..< length xs + 1])) = Pow (set xs)"
proof -
  have "set (map set (candidates xs ks)) = (\<Union>k \<in> set ks. set ` set (combinations xs k))" for ks
    by (induction ks) (simp_all add: candidates_def image_Un)
  then have "set (map set (candidates xs [0 ..< length xs + 1]))
        = (\<Union>k \<in> {0 ..< length xs + 1}. set ` set (combinations xs k))"
    by (simp only: set_upt)
  also have "\<dots> = (\<Union>k \<in> {0 ..< length xs + 1}. {S. S \<subseteq> set xs \<and> card S = k})"
    using combinations_sets[OF assms] by simp
  also have "\<dots> = Pow (set xs)"
  proof (intro set_eqI iffI)
    fix S assume "S \<in> (\<Union>k \<in> {0 ..< length xs + 1}. {S. S \<subseteq> set xs \<and> card S = k})"
    then show "S \<in> Pow (set xs)" by auto
  next
    fix S assume "S \<in> Pow (set xs)"
    then have sub: "S \<subseteq> set xs" by simp
    then have "card S \<le> card (set xs)" by (intro card_mono) simp_all
    also have "\<dots> \<le> length xs" by (rule card_length)
    finally have "card S \<in> {0 ..< length xs + 1}" by simp
    then show "S \<in> (\<Union>k \<in> {0 ..< length xs + 1}. {S. S \<subseteq> set xs \<and> card S = k})"
      using sub by blast
  qed
  finally show ?thesis .
qed

lemma iteration_frontier:
  assumes "set_iteration it" "finite_cells cs"
  shows "set (it Frontier (frontier cs)) = frontier cs" "distinct (it Frontier (frontier cs))"
    "length (it Frontier (frontier cs)) = card (frontier cs)"
proof -
  have fin: "finite (frontier cs)" using assms(2) by (rule finite_frontier)
  show s: "set (it Frontier (frontier cs)) = frontier cs" and d: "distinct (it Frontier (frontier cs))"
    using assms(1) fin by (simp_all add: set_iteration_def)
  show "length (it Frontier (frontier cs)) = card (frontier cs)"
    using distinct_card[OF d] s by simp
qed

lemma all_valid_set:
  assumes "set_iteration it" "finite_cells cs"
  shows "set (all_valid it cs) = valid_configurations cs"
proof -
  note fr = iteration_frontier[OF assms]
  have "set (map set (candidates (it Frontier (frontier cs)) [0 ..< card (frontier cs) + 1]))
        = Pow (frontier cs)"
    using candidates_sets[OF fr(2)] by (simp add: fr)
  then show ?thesis
    by (simp add: all_valid_def valid_of_def valid_configurations_def satisfies_all_meets
        del: set_map)
qed

lemma all_valid_distinct:
  assumes "set_iteration it" "finite_cells cs"
  shows "distinct (all_valid it cs)"
  unfolding all_valid_def valid_of_def
  by (intro distinct_filter candidates_distinct_sets iteration_frontier(2)[OF assms] distinct_upt)

lemma all_valid_sorted:
  assumes "set_iteration it" "finite_cells cs"
  shows "sorted (map card (all_valid it cs))"
  unfolding all_valid_def valid_of_def
  by (intro sorted_filter candidates_sorted_card iteration_frontier(2)[OF assms] sorted_upt)

lemma all_valid_length:
  assumes "set_iteration it" "finite_cells cs"
  shows "length (all_valid it cs) = card (valid_configurations cs)"
  using distinct_card[OF all_valid_distinct[OF assms]] all_valid_set[OF assms] by simp

lemma set_iteration_sorted: "set_iteration sorted_order"
  by (simp add: set_iteration_def sorted_order_def)

lemma all_valid_meets: "S \<in> set (all_valid it cs) \<Longrightarrow> meets cs S"
  by (simp add: all_valid_def valid_of_def satisfies_all_meets)

lemma enumerate_meets:
  "S \<in> set (enumerate_valid_configurations it cs m) \<Longrightarrow> meets cs S"
proof (cases "frontier cs = {}")
  case True
  assume "S \<in> set (enumerate_valid_configurations it cs m)"
  then show ?thesis using True by (simp add: enumerate_empty_frontier)
next
  case False
  assume S: "S \<in> set (enumerate_valid_configurations it cs m)"
  show ?thesis
  proof (cases "0 < m")
    case True
    then have "S \<in> set (take (nat m) (all_valid it cs))"
      using S False by (simp add: enumerate_closed)
    then have "S \<in> set (all_valid it cs)" by (rule in_set_takeD)
    then show ?thesis by (rule all_valid_meets)
  next
    case no: False
    then have "S \<in> set (if satisfies_all cs {} then [{}] else [])"
      using S False by (simp add: enumerate_no_budget)
    then show ?thesis by (simp add: satisfies_all_meets split: if_splits)
  qed
qed

lemma finite_valid_configurations:
  "finite_cells cs \<Longrightarrow> finite (valid_configurations cs)"
  by (simp add: valid_configurations_def finite_frontier)

lemma enumerate_all:
  assumes it: "set_iteration it" and fin: "finite_cells cs"
    and fr: "frontier cs \<noteq> {}"
    and le: "int (card (valid_configurations cs)) \<le> m"
  shows "enumerate_valid_configurations it cs m = all_valid it cs"
proof (cases "0 < m")
  case True
  have "length (all_valid it cs) \<le> nat m"
    using le all_valid_length[OF it fin] by linarith
  then show ?thesis using True fr by (simp add: enumerate_closed)
next
  case False
  then have "card (valid_configurations cs) = 0" using le by linarith
  then have empty: "valid_configurations cs = {}"
    using finite_valid_configurations[OF fin] by simp
  then have "all_valid it cs = []"
    using all_valid_set[OF it fin] by simp
  moreover have "\<not> satisfies_all cs {}"
    using empty by (auto simp: valid_configurations_def satisfies_all_meets)
  ultimately show ?thesis using False fr by (simp add: enumerate_no_budget)
qed

lemma valid_configurations_pair:
  "a \<noteq> b \<Longrightarrow> valid_configurations [({a, b}, 1)] = {{a}, {b}}"
proof -
  assume ab: "a \<noteq> b"
  have P: "Pow {a, b} = {{}, {a}, {b}, {a, b}}"
    by (auto simp: Pow_insert)
  have "valid_configurations [({a, b}, 1)] = {S \<in> {{}, {a}, {b}, {a, b}}. card (S \<inter> {a, b}) = 1}"
    by (simp add: valid_configurations_def frontier_def meets_def P)
  also have "\<dots> = {{a}, {b}}"
    using ab by auto
  finally show ?thesis .
qed


section \<open>The enumerator returns the valid configurations\<close>

lemma enumerate_single_constraint:
  assumes it: "set_iteration it" and budget: "2 \<le> budget"
  shows "set (enumerate_valid_configurations it [({(0, 0), (0, 1)}, 1)] budget)
           = {{(0, 0)}, {(0, 1)}}
       \<and> length (enumerate_valid_configurations it [({(0, 0), (0, 1)}, 1)] budget) = 2"
proof -
  let ?cs = "[({(0, 0), (0, 1)}, 1)] :: constraint list"
  have fin: "finite_cells ?cs" by (simp add: finite_cells_def)
  have v: "valid_configurations ?cs = {{(0, 0)}, {(0, 1)}}"
    by (rule valid_configurations_pair) simp
  have c: "card (valid_configurations ?cs) = 2"
    by (simp add: v)
  have fr: "frontier ?cs \<noteq> {}" by (simp add: frontier_def)
  have eq: "enumerate_valid_configurations it ?cs budget = all_valid it ?cs"
    using enumerate_all[OF it fin fr] c budget by simp
  show ?thesis
    using all_valid_set[OF it fin] all_valid_length[OF it fin] by (simp add: eq v c)
qed


text \<open>
  Claim C1, amended. For every list of constraints over finite cell sets and every
  budget: each configuration that \<open>enumerate_valid_configurations\<close> returns has, in
  every constraint's cell set, exactly the required number of cells. When the frontier
  is not empty and the number of valid configurations is at most the budget, the
  returned list holds exactly the valid configurations (the subsets of the frontier that
  meet every constraint), each once. For the single constraint \<open>({(0,0),(0,1)}, 1)\<close>
  and a budget of at least two, exactly the two configurations \<open>{(0,0)}\<close> and
  \<open>{(0,1)}\<close> are returned.
\<close>

theorem enumerate_valid_configurations_exact:
  assumes it: "set_iteration it" and fin: "finite_cells constraints"
  shows "(\<forall>configuration \<in> set (enumerate_valid_configurations it constraints budget).
            \<forall>(cells, required) \<in> set constraints.
              int (card (configuration \<inter> cells)) = required)
       \<and> (frontier constraints \<noteq> {} \<and> int (card (valid_configurations constraints)) \<le> budget
            \<longrightarrow> set (enumerate_valid_configurations it constraints budget)
                  = valid_configurations constraints
              \<and> distinct (enumerate_valid_configurations it constraints budget))
       \<and> (2 \<le> budget
            \<longrightarrow> set (enumerate_valid_configurations it [({(0, 0), (0, 1)}, 1)] budget)
                  = {{(0, 0)}, {(0, 1)}}
              \<and> length (enumerate_valid_configurations it [({(0, 0), (0, 1)}, 1)] budget) = 2)"
proof (intro conjI impI)
  show "\<forall>configuration \<in> set (enumerate_valid_configurations it constraints budget).
          \<forall>(cells, required) \<in> set constraints.
            int (card (configuration \<inter> cells)) = required"
    using enumerate_meets[of _ it constraints budget] by (simp add: meets_def)
next
  assume "frontier constraints \<noteq> {} \<and> int (card (valid_configurations constraints)) \<le> budget"
  then have eq: "enumerate_valid_configurations it constraints budget = all_valid it constraints"
    using enumerate_all[OF it fin] by simp
  show "set (enumerate_valid_configurations it constraints budget)
        = valid_configurations constraints"
    using eq all_valid_set[OF it fin] by simp
  show "distinct (enumerate_valid_configurations it constraints budget)"
    using eq all_valid_distinct[OF it fin] by simp
next
  assume "2 \<le> budget"
  then show "set (enumerate_valid_configurations it [({(0, 0), (0, 1)}, 1)] budget)
               = {{(0, 0)}, {(0, 1)}}"
    and "length (enumerate_valid_configurations it [({(0, 0), (0, 1)}, 1)] budget) = 2"
    using enumerate_single_constraint[OF it] by simp_all
qed

theorem enumerate_valid_configurations_exact_witness:
  "set (enumerate_valid_configurations sorted_order [({(0, 0), (0, 1)}, 1)] 100)
     = {{(0, 0)}, {(0, 1)}}
   \<and> distinct (enumerate_valid_configurations sorted_order [({(0, 0), (0, 1)}, 1)] 100)
   \<and> length (enumerate_valid_configurations sorted_order [({(0, 0), (0, 1)}, 1)] 100) = 2"
proof -
  let ?cs = "[({(0, 0), (0, 1)}, 1)] :: constraint list"
  have fin: "finite_cells ?cs" by (simp add: finite_cells_def)
  have v: "valid_configurations ?cs = {{(0, 0)}, {(0, 1)}}"
    by (rule valid_configurations_pair) simp
  have fr: "frontier ?cs \<noteq> {}" by (simp add: frontier_def)
  show ?thesis
    using enumerate_valid_configurations_exact[OF set_iteration_sorted fin, of 100] fr
    by (simp add: v)
qed

text \<open>
  The claim as it was stated, for every list of constraints, fails where the frontier is
  empty: for the empty list of constraints the empty mine set is the one valid
  configuration (a subset of the frontier that meets all constraints), the budget
  10000 exceeds that count, and the function returns no configuration at all.
\<close>

theorem enumerate_empty_counterexample:
  "set_iteration sorted_order \<and> finite_cells []
   \<and> valid_configurations [] = {{}}
   \<and> int (card (valid_configurations [])) \<le> 10000
   \<and> enumerate_valid_configurations sorted_order [] 10000 = []
   \<and> set (enumerate_valid_configurations sorted_order [] 10000) \<noteq> valid_configurations []"
proof -
  have v: "valid_configurations [] = {{}}"
    by (auto simp: valid_configurations_def frontier_def meets_def)
  have e: "enumerate_valid_configurations sorted_order [] 10000 = []"
    by (simp add: enumerate_empty_frontier frontier_def)
  show ?thesis
    by (simp add: set_iteration_sorted finite_cells_def v e)
qed


section \<open>The budget\<close>

text \<open>
  Claim C2. For every list of constraints over finite cell sets and every positive
  budget, \<open>enumerate_valid_configurations\<close> returns at most \<open>budget\<close> configurations,
  each of them a valid configuration (a subset of the frontier that has, in every
  constraint's cell set, exactly the required number of cells) and no two of them equal;
  its result is the first \<open>budget\<close> entries of the result for any larger budget, so the
  enumeration stops at the entry that fills the budget, wherever in a size class that
  is; the sizes of the returned configurations never decrease along the list; when
  there are more than \<open>budget\<close> valid configurations exactly \<open>budget\<close> are returned,
  and none of them is larger than a valid configuration that was left out; and the
  result is empty when the frontier is empty.
\<close>

theorem enumerate_budget:
  assumes it: "set_iteration it" and fin: "finite_cells constraints" and pos: "0 < budget"
  shows "int (length (enumerate_valid_configurations it constraints budget)) \<le> budget
       \<and> set (enumerate_valid_configurations it constraints budget)
            \<subseteq> valid_configurations constraints
       \<and> (\<forall>configuration \<in> set (enumerate_valid_configurations it constraints budget).
            configuration \<subseteq> frontier constraints
          \<and> (\<forall>(cells, required) \<in> set constraints.
                int (card (configuration \<inter> cells)) = required))
       \<and> distinct (enumerate_valid_configurations it constraints budget)
       \<and> (\<forall>larger. budget \<le> larger \<longrightarrow>
            enumerate_valid_configurations it constraints budget
              = take (nat budget) (enumerate_valid_configurations it constraints larger))
       \<and> sorted (map card (enumerate_valid_configurations it constraints budget))
       \<and> (budget < int (card (valid_configurations constraints)) \<longrightarrow>
            int (length (enumerate_valid_configurations it constraints budget)) = budget)
       \<and> (\<forall>chosen \<in> set (enumerate_valid_configurations it constraints budget).
            \<forall>other \<in> valid_configurations constraints
                      - set (enumerate_valid_configurations it constraints budget).
              card chosen \<le> card other)
       \<and> (frontier constraints = {} \<longrightarrow>
            enumerate_valid_configurations it constraints budget = [])"
proof (cases "frontier constraints = {}")
  case True
  then have "enumerate_valid_configurations it constraints m = []" for m
    by (rule enumerate_empty_frontier)
  moreover have "card (valid_configurations constraints) \<le> 1"
  proof -
    have "valid_configurations constraints \<subseteq> {{}}"
      using True by (auto simp: valid_configurations_def)
    then have "card (valid_configurations constraints) \<le> card {{} :: coord set}"
      by (intro card_mono) simp_all
    then show ?thesis by simp
  qed
  ultimately show ?thesis using pos by simp
next
  case False
  let ?L = "all_valid it constraints"
  let ?n = "nat budget"
  have E: "enumerate_valid_configurations it constraints m = take (nat m) ?L" if "0 < m" for m
    using that False by (rule enumerate_closed)
  have 1: "int (length (take ?n ?L)) \<le> budget" using pos by simp
  have 2: "\<forall>larger. budget \<le> larger \<longrightarrow> take ?n ?L = take ?n (take (nat larger) ?L)"
    using pos by (simp add: min_def)
  have 3: "sorted (map card (take ?n ?L))"
    using all_valid_sorted[OF it fin] by (simp add: take_map[symmetric] sorted_wrt_take)
  have 4: "budget < int (card (valid_configurations constraints)) \<longrightarrow>
           int (length (take ?n ?L)) = budget"
    using pos all_valid_length[OF it fin] by (simp add: min_def) linarith
  have 5: "\<forall>chosen \<in> set (take ?n ?L).
             \<forall>other \<in> valid_configurations constraints - set (take ?n ?L).
               card chosen \<le> card other"
  proof (intro ballI)
    fix chosen other
    assume c: "chosen \<in> set (take ?n ?L)"
      and o: "other \<in> valid_configurations constraints - set (take ?n ?L)"
    have "set ?L = set (take ?n ?L) \<union> set (drop ?n ?L)"
      by (simp only: set_append[symmetric] append_take_drop_id)
    then have o': "other \<in> set (drop ?n ?L)"
      using o all_valid_set[OF it fin] by blast
    have "sorted (map card (take ?n ?L @ drop ?n ?L))"
      using all_valid_sorted[OF it fin] by simp
    then have "\<forall>x \<in> set (take ?n ?L). \<forall>y \<in> set (drop ?n ?L). card x \<le> card y"
      unfolding map_append sorted_append by auto
    then show "card chosen \<le> card other" using c o' by blast
  qed
  have sub: "set (take ?n ?L) \<subseteq> valid_configurations constraints"
    using set_take_subset[of ?n ?L] all_valid_set[OF it fin] by simp
  then have 6: "\<forall>configuration \<in> set (take ?n ?L).
            configuration \<subseteq> frontier constraints
          \<and> (\<forall>(cells, required) \<in> set constraints.
                int (card (configuration \<inter> cells)) = required)"
    by (auto simp: valid_configurations_def meets_def)
  have 7: "distinct (take ?n ?L)"
    using all_valid_distinct[OF it fin] by (rule distinct_take)
  show ?thesis
    using 1 2 3 4 5 sub 6 7 False pos by (simp add: E)
qed


theorem enumerate_budget_witness:
  "int (length (enumerate_valid_configurations sorted_order [({(0, 0), (0, 1)}, 1)] 1)) = 1
   \<and> set (enumerate_valid_configurations sorted_order [({(0, 0), (0, 1)}, 1)] 1)
       \<subseteq> {{(0, 0)}, {(0, 1)}}
   \<and> enumerate_valid_configurations sorted_order [] 1 = []"
proof -
  let ?cs = "[({(0, 0), (0, 1)}, 1)] :: constraint list"
  have fin: "finite_cells ?cs" by (simp add: finite_cells_def)
  have v: "valid_configurations ?cs = {{(0, 0)}, {(0, 1)}}"
    by (rule valid_configurations_pair) simp
  note t = enumerate_budget[OF set_iteration_sorted fin, of 1]
  have 1: "int (length (enumerate_valid_configurations sorted_order ?cs 1)) = 1"
    using t by (simp add: v)
  have 2: "set (enumerate_valid_configurations sorted_order ?cs 1) \<subseteq> {{(0, 0)}, {(0, 1)}}"
    using t by (simp add: v)
  have "finite_cells []" by (simp add: finite_cells_def)
  then have 3: "enumerate_valid_configurations sorted_order [] 1 = []"
    using enumerate_budget[OF set_iteration_sorted, of "[]" 1]
    by (simp add: frontier_def)
  show ?thesis using 1 2 3 by (intro conjI)
qed

section \<open>The board functions in closed form\<close>

lemma config_simps:
  "STATE_COVERED config = ''covered''" "STATE_FLAGGED config = ''flagged''"
  "MAX_CONFIGURATIONS config = 10000" "ENABLE_LOGIC_RULES config"
  "ENABLE_PROBABILITY_CALCULATION config"
  by (simp_all add: config_def)

lemma getitem_in_bounds: "in_bounds board rc \<Longrightarrow> getitem board rc = Inr (cell board rc)"
  by (simp add: getitem_def in_bounds_def cell_def wrap_index_def)

lemma set_grid: "set (grid sh) = (\<lambda>(r, c). (int r, int c)) ` ({..< fst sh} \<times> {..< snd sh})"
  by (auto simp: grid_def)

lemma grid_iff:
  "(a, b) \<in> set (grid sh) \<longleftrightarrow> 0 \<le> a \<and> a < int (fst sh) \<and> 0 \<le> b \<and> b < int (snd sh)"
proof
  assume "(a, b) \<in> set (grid sh)"
  then show "0 \<le> a \<and> a < int (fst sh) \<and> 0 \<le> b \<and> b < int (snd sh)"
    by (auto simp: set_grid)
next
  assume h: "0 \<le> a \<and> a < int (fst sh) \<and> 0 \<le> b \<and> b < int (snd sh)"
  then have "(nat a, nat b) \<in> {..< fst sh} \<times> {..< snd sh}" by auto
  then have "(\<lambda>(r, c). (int r, int c)) (nat a, nat b) \<in> set (grid sh)"
    unfolding set_grid by (rule imageI)
  then show "(a, b) \<in> set (grid sh)" using h by simp
qed

lemma grid_in_bounds: "rc \<in> set (grid (shape board)) \<longleftrightarrow> in_bounds board rc"
  by (cases rc) (simp add: grid_iff in_bounds_def)

lemma distinct_grid: "distinct (grid sh)"
proof -
  have "grid sh = map (\<lambda>(r, c). (int r, int c)) (List.product [0 ..< fst sh] [0 ..< snd sh])"
    by (simp add: grid_def List.product_concat_map map_concat comp_def)
  moreover have "inj (\<lambda>(r :: nat, c :: nat). (int r, int c))"
    by (auto simp: inj_on_def)
  ultimately show ?thesis
    by (simp add: distinct_map distinct_product inj_on_subset[OF _ subset_UNIV])
qed

lemma grid_row_major: "sorted_wrt row_major_less (grid sh)"
proof -
  have inner: "sorted_wrt row_major_less (map (\<lambda>c. (r, int c)) [0 ..< n])" for r n
    by (simp add: sorted_wrt_map row_major_less_def sorted_wrt_iff_nth_less)
  have outer: "sorted_wrt row_major_less (concat (map (\<lambda>r. map (\<lambda>c. (int r, int c)) [0 ..< n]) rs))"
    if "sorted_wrt (<) rs" for rs :: "nat list" and n
    using that
  proof (induction rs)
    case Nil
    then show ?case by simp
  next
    case (Cons r rs)
    have a: "sorted_wrt row_major_less (map (\<lambda>c. (int r, int c)) [0 ..< n])"
      by (rule inner)
    have b: "sorted_wrt row_major_less (concat (map (\<lambda>r. map (\<lambda>c. (int r, int c)) [0 ..< n]) rs))"
      using Cons by simp
    have c: "\<forall>x \<in> set (map (\<lambda>c. (int r, int c)) [0 ..< n]).
             \<forall>y \<in> set (concat (map (\<lambda>r. map (\<lambda>c. (int r, int c)) [0 ..< n]) rs)).
               row_major_less x y"
      using Cons.prems by (auto simp: row_major_less_def)
    show ?case using a b c by (simp add: sorted_wrt_append)
  qed
  have "grid sh = concat (map (\<lambda>r. map (\<lambda>c. (int r, int c)) [0 ..< snd sh]) [0 ..< fst sh])"
    by (simp add: grid_def map_concat comp_def) 
  then show ?thesis using outer[of "[0 ..< fst sh]"] by (simp add: sorted_wrt_iff_nth_less)
qed

lemma numbered_loop_closed:
  "\<forall>rc \<in> set rcs. in_bounds board rc \<Longrightarrow>
   numbered_loop board rcs numbered
     = Inr (numbered @ filter (\<lambda>rc. is_numbered_cell (cell board rc)) rcs)"
  by (induction rcs arbitrary: numbered) (simp_all add: getitem_in_bounds)

lemma get_numbered_cells_closed: "get_numbered_cells board = Inr (numbered_cells board)"
  by (simp add: get_numbered_cells_def numbered_cells_def numbered_loop_closed grid_in_bounds)

lemma numbered_in_bounds: "rc \<in> set (numbered_cells board) \<Longrightarrow> in_bounds board rc"
  by (simp add: numbered_cells_def grid_in_bounds)

lemma neighbors_of_iff:
  "n \<in> neighbors_of board rc \<longleftrightarrow> in_bounds board n \<and> adjacent rc n"
  by (auto simp: neighbors_of_def grid_in_bounds)

lemma finite_neighbors_of: "finite (neighbors_of board rc)"
  by (simp add: neighbors_of_def)

lemma set_comprehension:
  "set [f x y. x \<leftarrow> xs, y \<leftarrow> ys, P x y, Q x y]
   = {n. \<exists>x \<in> set xs. \<exists>y \<in> set ys. n = f x y \<and> P x y \<and> Q x y}"
  by auto

lemma unit_step: "(d :: int) \<in> set [-1, 0, 1] \<longleftrightarrow> \<bar>d\<bar> \<le> 1"
  by auto

lemma get_neighbors_closed:
  assumes "in_bounds board (r, c)"
  shows "get_neighbors (int (fst (shape board))) (int (snd (shape board))) r c
         = Inr (neighbors_of board (r, c))"
proof -
  let ?R = "int (fst (shape board))" and ?C = "int (snd (shape board))"
  let ?L = "[(r + dr, c + dc). dr \<leftarrow> [-1, 0, 1], dc \<leftarrow> [-1, 0, 1],
             \<not> (dr = 0 \<and> dc = 0),
             0 \<le> r + dr \<and> r + dr < ?R \<and> 0 \<le> c + dc \<and> c + dc < ?C]"
  have L: "set ?L = {n. \<exists>dr. \<bar>dr\<bar> \<le> 1 \<and> (\<exists>dc. \<bar>dc\<bar> \<le> 1 \<and>
                      n = (r + dr, c + dc) \<and> \<not> (dr = 0 \<and> dc = 0) \<and>
                      (0 \<le> r + dr \<and> r + dr < ?R \<and> 0 \<le> c + dc \<and> c + dc < ?C))}"
    by (simp only: set_comprehension Bex_def unit_step)
  have "set ?L = neighbors_of board (r, c)"
  proof (intro set_eqI iffI)
    fix n assume "n \<in> set ?L"
    then obtain dr dc where d: "\<bar>dr\<bar> \<le> 1" "\<bar>dc\<bar> \<le> 1" "\<not> (dr = 0 \<and> dc = 0)"
      and n: "n = (r + dr, c + dc)"
      and b: "0 \<le> r + dr" "r + dr < ?R" "0 \<le> c + dc" "c + dc < ?C"
      unfolding L by blast
    show "n \<in> neighbors_of board (r, c)"
      using d b unfolding n neighbors_of_iff in_bounds_def adjacent_def by simp
  next
    fix n assume n: "n \<in> neighbors_of board (r, c)"
    obtain a b where ab: "n = (a, b)" by (cases n)
    have bnd: "0 \<le> a" "a < ?R" "0 \<le> b" "b < ?C"
      and adj: "(a, b) \<noteq> (r, c)" "\<bar>r - a\<bar> \<le> 1" "\<bar>c - b\<bar> \<le> 1"
      using n by (auto simp: ab neighbors_of_iff in_bounds_def adjacent_def)
    have 1: "\<bar>a - r\<bar> \<le> 1" "\<bar>b - c\<bar> \<le> 1" using adj by simp_all
    have 2: "\<not> (a - r = 0 \<and> b - c = 0)" using adj by simp
    have 3: "(a, b) = (r + (a - r), c + (b - c))" by simp
    have 4: "0 \<le> r + (a - r)" "r + (a - r) < ?R" "0 \<le> c + (b - c)" "c + (b - c) < ?C"
      using bnd by simp_all
    show "n \<in> set ?L"
      unfolding L ab using 1 2 3 4 by blast
  qed
  then show ?thesis using assms by (simp only: get_neighbors_def in_bounds_def fst_conv snd_conv) simp
qed

lemma neighbors_in_state_closed:
  assumes "\<forall>n \<in> neighbors. in_bounds board n"
  shows "neighbors_in_state board neighbors state
         = Inr (Set.filter (\<lambda>n. cell board n = state) neighbors)"
proof -
  have "\<not> (\<exists>n \<in> neighbors. getitem board n = Inl IndexError)"
    using assms by (auto simp: getitem_in_bounds)
  moreover have "{n \<in> neighbors. getitem board n = Inr state}
                 = Set.filter (\<lambda>n. cell board n = state) neighbors"
    using assms by (auto simp: getitem_in_bounds)
  ultimately show ?thesis by (simp add: neighbors_in_state_def)
qed

lemma get_unrevealed_neighbors_closed:
  "in_bounds board (r, c) \<Longrightarrow>
   get_unrevealed_neighbors board r c = Inr (covered_neighbors board (r, c))"
  by (simp add: get_unrevealed_neighbors_def get_neighbors_closed neighbors_in_state_closed
      neighbors_of_iff covered_neighbors_def config_simps)

lemma get_flagged_neighbors_closed:
  "in_bounds board (r, c) \<Longrightarrow>
   get_flagged_neighbors board r c = Inr (flagged_neighbors board (r, c))"
  by (simp add: get_flagged_neighbors_def get_neighbors_closed neighbors_in_state_closed
      neighbors_of_iff flagged_neighbors_def config_simps)

lemma get_cell_value_numbered:
  "is_numbered_cell s \<Longrightarrow>
   get_cell_value s = (if decimal s then Inr (int_of_str s) else Inl ValueError)"
  by (simp add: get_cell_value_def int_of_digits_def decimal_def)

lemma logic_rules_step_closed:
  assumes "in_bounds board rc" "is_numbered_cell (cell board rc)"
  shows "logic_rules_step it board rc moves
         = (if decimal (cell board rc) then Inr (moves @ rule_moves it board rc)
            else Inl ValueError)"
proof -
  obtain r c where rc: "rc = (r, c)" by (cases rc)
  show ?thesis
    using assms unfolding rc
    by (simp add: logic_rules_step_def getitem_in_bounds get_cell_value_numbered
        get_neighbors_closed get_unrevealed_neighbors_closed get_flagged_neighbors_closed
        rule_moves_def saturation_moves_def exhaustion_moves_def cell_number_def Let_def)
qed

lemma logic_rules_loop_closed:
  "\<forall>rc \<in> set rcs. in_bounds board rc \<and> is_numbered_cell (cell board rc) \<Longrightarrow>
   logic_rules_loop it board rcs moves
     = (if list_all (\<lambda>rc. decimal (cell board rc)) rcs
        then Inr (moves @ concat (map (rule_moves it board) rcs))
        else Inl ValueError)"
proof (induction rcs arbitrary: moves)
  case Nil
  then show ?case by simp
next
  case (Cons rc rcs)
  have step: "logic_rules_step it board rc moves
         = (if decimal (cell board rc) then Inr (moves @ rule_moves it board rc)
            else Inl ValueError)"
    using Cons.prems by (simp add: logic_rules_step_closed)
  have IH: "logic_rules_loop it board rcs ms
     = (if list_all (\<lambda>rc. decimal (cell board rc)) rcs
        then Inr (ms @ concat (map (rule_moves it board) rcs))
        else Inl ValueError)" for ms
    using Cons.IH Cons.prems by simp
  show ?case by (simp add: step IH)
qed

lemma numbered_is_numbered:
  "rc \<in> set (numbered_cells board) \<Longrightarrow> is_numbered_cell (cell board rc)"
  by (simp add: numbered_cells_def)

lemma apply_logic_rules_closed:
  "apply_logic_rules it board
     = (if readable board
        then Inr (concat (map (rule_moves it board) (numbered_cells board)))
        else Inl ValueError)"
  by (simp add: apply_logic_rules_def get_numbered_cells_closed logic_rules_loop_closed
      numbered_in_bounds numbered_is_numbered readable_def)

lemma constraint_loop_closed:
  "\<forall>rc \<in> set rcs. in_bounds board rc \<and> is_numbered_cell (cell board rc) \<Longrightarrow>
   constraint_loop board rcs constraints
     = (if list_all (\<lambda>rc. decimal (cell board rc)) rcs
        then Inr (constraints @ map (constraint_of board)
                    (filter (\<lambda>rc. covered_neighbors board rc \<noteq> {}) rcs))
        else Inl ValueError)"
proof (induction rcs arbitrary: constraints)
  case Nil
  then show ?case by simp
next
  case (Cons rc rcs)
  obtain r c where rc: "rc = (r, c)" by (cases rc)
  have b: "in_bounds board (r, c)" "is_numbered_cell (cell board (r, c))"
    using Cons.prems by (simp_all add: rc)
  have IH: "constraint_loop board rcs cs
     = (if list_all (\<lambda>rc. decimal (cell board rc)) rcs
        then Inr (cs @ map (constraint_of board)
                    (filter (\<lambda>rc. covered_neighbors board rc \<noteq> {}) rcs))
        else Inl ValueError)" for cs
    using Cons.IH Cons.prems by simp
  show ?case unfolding rc
    by (simp add: getitem_in_bounds[OF b(1)] get_cell_value_numbered[OF b(2)]
        get_unrevealed_neighbors_closed[OF b(1)] IH constraint_of_def cell_number_def)
qed

lemma build_constraint_set_closed:
  "build_constraint_set board
     = (if readable board
        then Inr (map (constraint_of board)
               (filter (\<lambda>rc. covered_neighbors board rc \<noteq> {}) (numbered_cells board)))
        else Inl ValueError)"
  by (simp add: build_constraint_set_def get_numbered_cells_closed constraint_loop_closed
      numbered_in_bounds numbered_is_numbered readable_def)

section \<open>The logic rules\<close>

lemma finite_covered_neighbors: "finite (covered_neighbors board rc)"
  by (simp add: covered_neighbors_def neighbors_of_def)

lemma iteration_covered:
  assumes "set_iteration it"
  shows "set (it site (covered_neighbors board rc)) = covered_neighbors board rc"
    and "distinct (it site (covered_neighbors board rc))"
  using assms finite_covered_neighbors[of board rc] by (simp_all add: set_iteration_def)

lemma numbered_cell_digit:
  "c \<in> set ''123456789'' \<Longrightarrow>
   is_numbered_cell [c] \<and> decimal [c] \<and> get_cell_value [c] = Inr (int (of_char c) - 48)"
  by (auto simp: is_numbered_cell_def isdigit_def isdigit_char_def isdecimal_char_def
      decimal_def int_max_str_digits_def get_cell_value_def int_of_digits_def int_of_str_def)

lemma readable_cell_value:
  "readable board \<Longrightarrow> rc \<in> set (numbered_cells board) \<Longrightarrow>
   get_cell_value (cell board rc) = Inr (cell_number board rc)"
  by (simp add: readable_def list_all_iff get_cell_value_numbered numbered_is_numbered
      cell_number_def)

text \<open>
  On a readable board, \<open>apply_logic_rules\<close> returns the moves of the numbered cells,
  cell after cell in row-major order. For one numbered cell with number \<open>n\<close> the moves
  are: one flag move for each covered neighbour when the number of covered neighbours
  plus the number of flagged neighbours is \<open>n\<close>, followed by one reveal move for each
  covered neighbour when the number of flagged neighbours is \<open>n\<close>. On a board that is
  not readable it raises ValueError.
\<close>

lemma apply_logic_rules_moves:
  assumes "set_iteration it"
  shows "apply_logic_rules it board
           = (if readable board
              then Inr (concat (map (rule_moves it board) (numbered_cells board)))
              else Inl ValueError)
       \<and> sorted_wrt row_major_less (numbered_cells board)
       \<and> (\<forall>rc \<in> set (numbered_cells board).
            rule_moves it board rc = saturation_moves it board rc @ exhaustion_moves it board rc
          \<and> distinct (saturation_moves it board rc)
          \<and> set (saturation_moves it board rc)
              = (if int (card (covered_neighbors board rc)) + int (card (flagged_neighbors board rc))
                    = cell_number board rc
                 then (\<lambda>n. (n, ''flag'')) ` covered_neighbors board rc else {})
          \<and> distinct (exhaustion_moves it board rc)
          \<and> set (exhaustion_moves it board rc)
              = (if int (card (flagged_neighbors board rc)) = cell_number board rc
                 then (\<lambda>n. (n, ''reveal'')) ` covered_neighbors board rc else {}))"
proof (intro conjI ballI)
  show "apply_logic_rules it board
        = (if readable board
           then Inr (concat (map (rule_moves it board) (numbered_cells board)))
           else Inl ValueError)"
    by (rule apply_logic_rules_closed)
  show "sorted_wrt row_major_less (numbered_cells board)"
    unfolding numbered_cells_def by (intro sorted_wrt_filter grid_row_major)
next
  fix rc
  note U = iteration_covered[OF assms, of "Unrevealed rc" board rc]
  show "rule_moves it board rc = saturation_moves it board rc @ exhaustion_moves it board rc"
    by (simp add: rule_moves_def)
  show "distinct (saturation_moves it board rc)"
    using U(2) by (simp add: saturation_moves_def distinct_map inj_on_def)
  show "distinct (exhaustion_moves it board rc)"
    using U(2) by (simp add: exhaustion_moves_def distinct_map inj_on_def)
  show "set (saturation_moves it board rc)
        = (if int (card (covered_neighbors board rc)) + int (card (flagged_neighbors board rc))
              = cell_number board rc
           then (\<lambda>n. (n, ''flag'')) ` covered_neighbors board rc else {})"
    using U(1) by (simp add: saturation_moves_def)
  show "set (exhaustion_moves it board rc)
        = (if int (card (flagged_neighbors board rc)) = cell_number board rc
           then (\<lambda>n. (n, ''reveal'')) ` covered_neighbors board rc else {})"
    using U(1) by (simp add: exhaustion_moves_def)
qed

text \<open>
  When both tests hold for a cell, the cell has no covered neighbour, and the two rules
  give no move.
\<close>

lemma both_rules_no_moves:
  assumes "int (card (covered_neighbors board rc)) + int (card (flagged_neighbors board rc))
             = cell_number board rc"
    and "int (card (flagged_neighbors board rc)) = cell_number board rc"
    and "set_iteration it"
  shows "covered_neighbors board rc = {} \<and> rule_moves it board rc = []"
proof -
  have "card (covered_neighbors board rc) = 0" using assms(1,2) by simp
  then have e: "covered_neighbors board rc = {}"
    using finite_covered_neighbors[of board rc] by simp
  have "set (it (Unrevealed rc) (covered_neighbors board rc)) = {}"
    using iteration_covered(1)[OF assms(3), of "Unrevealed rc" board rc] e by simp
  then show ?thesis
    using e by (simp add: rule_moves_def saturation_moves_def exhaustion_moves_def)
qed

lemma superscript_example:
  "\<not> readable (np_array [[''1'', ''covered'', [CHR 0xB2]]])"
  "numbered_cells (np_array [[''1'', ''covered'', [CHR 0xB2]]]) = [(0, 0), (0, 2)]"
  "get_cell_value [CHR 0xB2] = Inl ValueError"
  "covered_neighbors (np_array [[''1'', ''covered'', [CHR 0xB2]]]) (0, 0) = {(0, 1)}"
  "flagged_neighbors (np_array [[''1'', ''covered'', [CHR 0xB2]]]) (0, 0) = {}"
  "cell_number (np_array [[''1'', ''covered'', [CHR 0xB2]]]) (0, 0) = 1"
  by code_simp+

text \<open>
  Claim C3 fails on a board with a cell that \<^verbatim>\<open>isdigit\<close> accepts and \<^verbatim>\<open>int\<close> rejects.
  On the board of one row with the cells \<^verbatim>\<open>'1'\<close>, \<^verbatim>\<open>'covered'\<close> and the superscript
  two, the cell (0,0) has the number 1, one covered neighbour and no flagged neighbour,
  so the saturation rule asks for a flag at (0,1); the superscript two at (0,2) counts as
  a numbered cell, \<^verbatim>\<open>get_cell_value\<close> raises ValueError on it, and
  \<open>apply_logic_rules\<close> returns no move at all.
\<close>

theorem apply_logic_rules_raises:
  "apply_logic_rules it (np_array [[''1'', ''covered'', [CHR 0xB2]]]) = Inl ValueError
   \<and> numbered_cells (np_array [[''1'', ''covered'', [CHR 0xB2]]]) = [(0, 0), (0, 2)]
   \<and> get_cell_value [CHR 0xB2] = Inl ValueError
   \<and> covered_neighbors (np_array [[''1'', ''covered'', [CHR 0xB2]]]) (0, 0) = {(0, 1)}
   \<and> flagged_neighbors (np_array [[''1'', ''covered'', [CHR 0xB2]]]) (0, 0) = {}
   \<and> cell_number (np_array [[''1'', ''covered'', [CHR 0xB2]]]) (0, 0) = 1"
  by (simp add: apply_logic_rules_closed superscript_example)

section \<open>The constraints\<close>

text \<open>
  Claim C7, amended. For every board whose numbered cells hold decimal numbers (strings
  that \<^verbatim>\<open>int\<close> accepts), \<open>build_constraint_set\<close> returns, without raising, one
  constraint (covered neighbours, number) for each numbered cell that has a covered
  neighbour, in row-major order, and nothing for a numbered cell without covered
  neighbours. No other numbered cell is left out: the builder does not compare the
  number with the count of covered neighbours.
\<close>

theorem build_constraint_set_constraints:
  assumes "readable board"
  shows "build_constraint_set board
           = Inr (map (\<lambda>rc. (covered_neighbors board rc, cell_number board rc))
                   (filter (\<lambda>rc. covered_neighbors board rc \<noteq> {}) (numbered_cells board)))
       \<and> list_all (\<lambda>rc. get_cell_value (cell board rc) = Inr (cell_number board rc))
           (numbered_cells board)"
  using assms build_constraint_set_closed[of board] readable_cell_value[of board]
  by (simp add: constraint_of_def[abs_def] list_all_iff)

lemma readable_example:
  "readable (np_array [[''covered'', ''2''], [''covered'', ''covered'']])"
  "map (\<lambda>rc. (covered_neighbors (np_array [[''covered'', ''2''], [''covered'', ''covered'']]) rc,
               cell_number (np_array [[''covered'', ''2''], [''covered'', ''covered'']]) rc))
     (filter (\<lambda>rc. covered_neighbors (np_array [[''covered'', ''2''],
                                                  [''covered'', ''covered'']]) rc \<noteq> {})
        (numbered_cells (np_array [[''covered'', ''2''], [''covered'', ''covered'']])))
   = [({(0, 0), (1, 0), (1, 1)}, 2)]"
  by code_simp+

theorem build_constraint_set_constraints_witness:
  "build_constraint_set (np_array [[''covered'', ''2''], [''covered'', ''covered'']])
     = Inr [({(0, 0), (1, 0), (1, 1)}, 2)]"
  using build_constraint_set_constraints[OF readable_example(1)]
  by (simp only: readable_example(2))

text \<open>
  The claim as it was stated has the builder skip a numbered cell whose constraint no
  mine set can meet. On the board of one row with the cells \<^verbatim>\<open>'5'\<close> and
  \<^verbatim>\<open>'covered'\<close>, which is readable, the builder returns the constraint that asks for
  five mines among one cell.
\<close>

theorem build_constraint_set_unsatisfiable_counterexample:
  "readable (np_array [[''5'', ''covered'']])
   \<and> build_constraint_set (np_array [[''5'', ''covered'']]) = Inr [({(0, 1)}, 5)]
   \<and> \<not> (5 \<le> int (card {(0 :: int, 1 :: int)}))"
  by code_simp

section \<open>Probabilities from the enumerated configurations\<close>

lemma covered_loop_closed:
  "\<forall>rc \<in> set rcs. in_bounds board rc \<Longrightarrow>
   covered_loop board rcs (covered_cells, flagged_count)
     = Inr (covered_cells @ filter (\<lambda>rc. cell board rc = ''covered'') rcs,
            flagged_count + int (length (filter (\<lambda>rc. cell board rc = ''flagged'') rcs)))"
  by (induction rcs arbitrary: covered_cells flagged_count)
     (simp_all add: getitem_in_bounds config_simps)

lemma calculate_simple_probability_closed:
  "calculate_simple_probability board None
     = Inr (map (\<lambda>cell. (cell, uniform_probability board)) (covered_cells_of board))"
  by (simp add: calculate_simple_probability_def covered_loop_closed grid_in_bounds
      covered_cells_of_def[symmetric] flagged_count_of_def[symmetric] uniform_probability_def Let_def)

lemma length_grid: "length (grid sh) = fst sh * snd sh"
proof -
  have "length (concat (map (\<lambda>r. map (\<lambda>c. (int r, int c)) [0 ..< n]) rs)) = length rs * n"
    for rs :: "nat list" and n
    by (induction rs) simp_all
  moreover have "grid sh = concat (map (\<lambda>r. map (\<lambda>c. (int r, int c)) [0 ..< snd sh]) [0 ..< fst sh])"
    by (simp add: grid_def map_concat comp_def)
  ultimately show ?thesis by simp
qed

subsection \<open>Counting\<close>

lemma increment_keys: "fst ` set (increment mc c) = insert c (fst ` set mc)"
  by (induction mc c rule: increment.induct) auto

lemma increment_distinct: "distinct (map fst mc) \<Longrightarrow> distinct (map fst (increment mc c))"
  by (induction mc c rule: increment.induct) (auto simp: increment_keys)

lemma increment_count:
  "count_in (increment mc c) c' = count_in mc c' + (if c = c' then 1 else 0)"
  by (induction mc c rule: increment.induct) (auto simp: count_in_def)

lemma foldl_increment_keys: "fst ` set (foldl increment mc cs) = fst ` set mc \<union> set cs"
  by (induction cs arbitrary: mc) (auto simp: increment_keys)

lemma foldl_increment_distinct:
  "distinct (map fst mc) \<Longrightarrow> distinct (map fst (foldl increment mc cs))"
  by (induction cs arbitrary: mc) (simp_all add: increment_distinct)

lemma foldl_increment_count:
  "count_in (foldl increment mc cs) c = count_in mc c + count_list cs c"
  by (induction cs arbitrary: mc) (simp_all add: increment_count)

lemma count_list_distinct: "distinct cs \<Longrightarrow> count_list cs c = (if c \<in> set cs then 1 else 0)"
  by (induction cs) auto

lemma count_loop_props:
  assumes it: "set_iteration it" and fin: "\<forall>S \<in> set confs. finite S"
    and d: "distinct (map fst mc)"
  shows "distinct (map fst (count_loop it i confs mc))
       \<and> fst ` set (count_loop it i confs mc) = fst ` set mc \<union> \<Union> (set confs)
       \<and> (\<forall>c. count_in (count_loop it i confs mc) c = count_in mc c + containing confs c)"
  using fin d
proof (induction confs arbitrary: mc i)
  case Nil
  then show ?case by (simp add: containing_def)
next
  case (Cons S confs)
  have S: "set (it (Configuration i) S) = S" "distinct (it (Configuration i) S)"
    using it Cons.prems(1) by (simp_all add: set_iteration_def)
  let ?mc = "foldl increment mc (it (Configuration i) S)"
  have d': "distinct (map fst ?mc)" using Cons.prems(2) by (rule foldl_increment_distinct)
  have fin': "\<forall>S \<in> set confs. finite S" using Cons.prems(1) by simp
  note IH = Cons.IH[OF fin' d', of "Suc i"]
  have k: "fst ` set ?mc = fst ` set mc \<union> S" by (simp add: foldl_increment_keys S)
  have c: "count_in ?mc c = count_in mc c + (if c \<in> S then 1 else 0)" for c
    by (simp add: foldl_increment_count count_list_distinct S)
  show ?case using IH by (auto simp: k c containing_def)
qed

lemma count_mines_props:
  assumes "set_iteration it" "\<forall>S \<in> set confs. finite S"
  shows "distinct (map fst (count_mines it confs))"
    and "fst ` set (count_mines it confs) = \<Union> (set confs)"
    and "count_in (count_mines it confs) c = containing confs c"
proof -
  have nil: "count_in [] c = 0" for c by (simp add: count_in_def)
  note P = count_loop_props[OF assms, of "[]" 0]
  show "distinct (map fst (count_mines it confs))"
    using P by (simp add: count_mines_def)
  show "fst ` set (count_mines it confs) = \<Union> (set confs)"
    using P by (simp add: count_mines_def)
  have "\<forall>c. count_in (count_mines it confs) c = count_in [] c + containing confs c"
    using P unfolding count_mines_def by simp
  then have "count_in (count_mines it confs) c = count_in [] c + containing confs c" ..
  then show "count_in (count_mines it confs) c = containing confs c"
    by (simp only: nil add_0)
qed

lemma map_of_probabilities:
  assumes "distinct (map fst mc)"
  shows "map_of (map (\<lambda>(cell, n). (cell, real n / t)) mc) c
         = (if c \<in> fst ` set mc then Some (real (count_in mc c) / t) else None)"
proof -
  have "map_of (map (\<lambda>(cell, n). (cell, real n / t)) mc) c
        = map_option (\<lambda>n. real n / t) (map_of mc c)"
    by (induction mc) auto
  then show ?thesis
    by (auto simp: count_in_def map_of_eq_None_iff[symmetric] simp del: map_of_eq_None_iff
             split: option.splits)
qed

lemma enumerate_subset_frontier:
  assumes it: "set_iteration it" and fin: "finite_cells cs"
    and S: "S \<in> set (enumerate_valid_configurations it cs m)"
  shows "S \<subseteq> frontier cs"
proof (cases "frontier cs = {}")
  case True
  then show ?thesis using S by (simp add: enumerate_empty_frontier)
next
  case False
  show ?thesis
  proof (cases "0 < m")
    case True
    then have "S \<in> set (take (nat m) (all_valid it cs))"
      using S False by (simp add: enumerate_closed)
    then have "S \<in> set (all_valid it cs)" by (rule in_set_takeD)
    then show ?thesis
      unfolding all_valid_set[OF it fin] by (simp add: valid_configurations_def)
  next
    case no: False
    then have "S \<in> set (if satisfies_all cs {} then [{}] else [])"
      using S False by (simp add: enumerate_no_budget)
    then show ?thesis by (simp split: if_splits)
  qed
qed

lemma board_constraints:
  assumes "build_constraint_set board = Inr constraints"
  shows "finite_cells constraints"
    and "c \<in> frontier constraints \<Longrightarrow> \<exists>rc. c \<in> covered_neighbors board rc"
proof -
  have cs: "constraints = map (constraint_of board)
              (filter (\<lambda>rc. covered_neighbors board rc \<noteq> {}) (numbered_cells board))"
    using assms by (simp add: build_constraint_set_closed split: if_splits)
  show "finite_cells constraints"
    unfolding cs finite_cells_def
    by (simp add: list_all_iff constraint_of_def finite_covered_neighbors)
  show "c \<in> frontier constraints \<Longrightarrow> \<exists>rc. c \<in> covered_neighbors board rc"
    unfolding cs frontier_def by (auto simp: constraint_of_def)
qed

lemma calculate_probabilities_enumerated:
  assumes "build_constraint_set board = Inr constraints" "constraints \<noteq> []"
    and "enumerate_valid_configurations it constraints (MAX_CONFIGURATIONS config) = configurations"
    and "configurations \<noteq> []"
  shows "calculate_probabilities it board
         = Inr (map (\<lambda>(cell, n). (cell, real n / real (length configurations)))
                  (count_mines it configurations))"
  using assms by (simp add: calculate_probabilities_def Let_def)

lemma calculate_probabilities_fallback:
  assumes "build_constraint_set board = Inr constraints"
    and "constraints = [] \<or>
         enumerate_valid_configurations it constraints (MAX_CONFIGURATIONS config) = []"
  shows "calculate_probabilities it board
         = Inr (map (\<lambda>cell. (cell, uniform_probability board)) (covered_cells_of board))"
  using assms
  by (auto simp: calculate_probabilities_def Let_def calculate_simple_probability_closed)

lemma probabilities_frequencies:
  assumes it: "set_iteration it"
    and cs: "build_constraint_set board = Inr constraints" "constraints \<noteq> []"
    and en: "enumerate_valid_configurations it constraints (MAX_CONFIGURATIONS config)
             = configurations" "configurations \<noteq> []"
  shows "\<exists>probabilities.
           calculate_probabilities it board = Inr probabilities
         \<and> distinct (map fst probabilities)
         \<and> (\<forall>c. map_of probabilities c
                 = (if c \<in> \<Union> (set configurations)
                    then Some (real (containing configurations c)
                                 / real (length configurations))
                    else None))"
proof -
  let ?t = "real (length configurations)"
  let ?mc = "count_mines it configurations"
  let ?p = "map (\<lambda>(cell, n). (cell, real n / ?t)) ?mc"
  have fin: "finite_cells constraints" using cs(1) by (rule board_constraints(1))
  have "finite (frontier constraints)" using fin by (rule finite_frontier)
  then have finS: "\<forall>S \<in> set configurations. finite S"
    using enumerate_subset_frontier[OF it fin] en(1) finite_subset by blast
  note mc = count_mines_props[OF it finS]
  have 1: "calculate_probabilities it board = Inr ?p"
    using cs en by (rule calculate_probabilities_enumerated)
  have "map fst (map (\<lambda>(cell, n). (cell, real n / t)) xs) = map fst xs"
    for xs :: "(coord \<times> nat) list" and t
    by (induction xs) auto
  then have 2: "distinct (map fst ?p)" using mc(1) by (simp only:)
  have 3: "map_of ?p c = (if c \<in> \<Union> (set configurations)
                          then Some (real (containing configurations c) / ?t) else None)" for c
    using map_of_probabilities[OF mc(1), of ?t c] by (simp add: mc(2) mc(3))
  show ?thesis using 1 2 3 by blast
qed


text \<open>
  Claim C4. When the list of constraints built from the board is not empty and the
  enumeration returns at least one configuration, \<open>calculate_probabilities\<close> returns a
  dictionary whose keys are exactly the coordinates that lie in at least one enumerated
  configuration, and the value of such a coordinate is the number of configurations that
  contain it divided by the number of configurations. A coordinate of the frontier that
  lies in no configuration is not a key.
\<close>

theorem calculate_probabilities_frequencies:
  assumes "set_iteration it"
    and "build_constraint_set board = Inr constraints" and "constraints \<noteq> []"
    and "enumerate_valid_configurations it constraints (MAX_CONFIGURATIONS config)
         = configurations"
    and "configurations \<noteq> []"
  shows "\<exists>probabilities.
           calculate_probabilities it board = Inr probabilities
         \<and> distinct (map fst probabilities)
         \<and> (\<forall>c. map_of probabilities c
                 = (if c \<in> \<Union> (set configurations)
                    then Some (real (length (filter (\<lambda>S. c \<in> S) configurations))
                                 / real (length configurations))
                    else None))"
  using probabilities_frequencies[OF assms] unfolding containing_def .

lemma constraints_example:
  "build_constraint_set (np_array [[''covered'', ''covered''], [''covered'', ''1'']])
   = Inr [({(0, 0), (0, 1), (1, 0)}, 1)]"
  by code_simp

lemma configurations_example:
  "enumerate_valid_configurations sorted_order [({(0, 0), (0, 1), (1, 0)}, 1)] 10000
   = [{(0, 0)}, {(0, 1)}, {(1, 0)}]"
  by code_simp

theorem calculate_probabilities_frequencies_witness:
  "\<exists>probabilities.
     calculate_probabilities sorted_order
       (np_array [[''covered'', ''covered''], [''covered'', ''1'']]) = Inr probabilities
   \<and> map_of probabilities (0, 0) = Some (1 / 3)
   \<and> map_of probabilities (1, 1) = None"
proof -
  have en: "enumerate_valid_configurations sorted_order
              [({(0, 0), (0, 1), (1, 0)}, 1)] (MAX_CONFIGURATIONS config)
            = [{(0, 0)}, {(0, 1)}, {(1, 0)}]"
    by (simp only: config_simps configurations_example)
  obtain probabilities where p:
    "calculate_probabilities sorted_order
       (np_array [[''covered'', ''covered''], [''covered'', ''1'']]) = Inr probabilities"
    "\<forall>c. map_of probabilities c
         = (if c \<in> \<Union> (set [{(0, 0)}, {(0, 1)}, {(1, 0)}])
            then Some (real (length (filter (\<lambda>S. c \<in> S) [{(0, 0)}, {(0, 1)}, {(1, 0)}]))
                        / real (length [{(0, 0)}, {(0, 1)}, {(1, 0 :: int)} :: coord set]))
            else None)"
    using calculate_probabilities_frequencies[OF set_iteration_sorted constraints_example _ en]
    by blast
  have "map_of probabilities (0, 0) = Some (1 / 3)"
    using p(2) by simp
  moreover have "map_of probabilities (1, 1) = None"
    using p(2) by simp
  ultimately show ?thesis using p(1) by blast
qed

section \<open>The uniform estimate\<close>

lemma estimate_other_shape:
  "sh \<notin> {(9, 9), (16, 16), (16, 30)} \<Longrightarrow>
   estimate_total_mines sh = \<lfloor>real (fst sh * snd sh) * 0.15\<rfloor>"
proof -
  assume "sh \<notin> {(9, 9), (16, 16), (16, 30)}"
  then have "estimate_total_mines sh = (int (fst sh * snd sh) * 15) div 100"
    by (simp add: estimate_total_mines_def)
  also have "\<dots> = \<lfloor>real_of_int (int (fst sh * snd sh) * 15) / real_of_int 100\<rfloor>"
    by (rule floor_divide_of_int_eq[symmetric])
  also have "real_of_int (int (fst sh * snd sh) * 15) / real_of_int 100
             = real (fst sh * snd sh) * 0.15"
    by simp
  finally show ?thesis .
qed

lemma all_covered_board:
  assumes cov: "list_all (\<lambda>rc. cell board rc = ''covered'') (grid (shape board))"
  shows "build_constraint_set board = Inr []"
    and "covered_cells_of board = grid (shape board)"
    and "flagged_count_of board = 0"
proof -
  have c: "\<forall>rc \<in> set (grid (shape board)). cell board rc = ''covered''"
    using cov by (simp add: list_all_iff)
  have "\<not> is_numbered_cell ''covered''"
    by (simp add: is_numbered_cell_def isdigit_def isdigit_char_def isdecimal_char_def)
  then have "numbered_cells board = []"
    using c by (simp add: numbered_cells_def filter_empty_conv)
  then show "build_constraint_set board = Inr []"
    by (simp add: build_constraint_set_closed readable_def)
  show "covered_cells_of board = grid (shape board)"
    using c by (simp add: covered_cells_of_def filter_id_conv)
  show "flagged_count_of board = 0"
    using c by (simp add: flagged_count_of_def filter_empty_conv)
qed


text \<open>
  Claim C6, amended. When the board gives no constraint, or the enumeration returns no
  configuration, \<open>calculate_probabilities\<close> gives every covered cell of the board the
  same probability: the remaining mines, \<open>max 0 (total - flagged)\<close>, divided by the
  number of covered cells; the dictionary is empty when no cell is covered. The total
  is 10 for a board of 9 by 9, 40 for 16 by 16, 99 for 16 by 30, and for every other
  shape \<open>rows * cols * 0.15\<close> rounded down. On a board of 9 by 9 whose cells are all
  covered every cell gets 10/81.
\<close>

theorem uniform_fallback:
  "(build_constraint_set board = Inr constraints \<and>
    (constraints = [] \<or>
     enumerate_valid_configurations it constraints (MAX_CONFIGURATIONS config) = [])
    \<longrightarrow> calculate_probabilities it board
          = Inr (map (\<lambda>cell. (cell,
                   real_of_int (max 0 (estimate_total_mines (shape board)
                                        - int (flagged_count_of board)))
                     / real (length (covered_cells_of board))))
                 (covered_cells_of board))
        \<and> (covered_cells_of board = [] \<longrightarrow> calculate_probabilities it board = Inr []))
   \<and> estimate_total_mines (9, 9) = 10
   \<and> estimate_total_mines (16, 16) = 40
   \<and> estimate_total_mines (16, 30) = 99
   \<and> (shape board \<notin> {(9, 9), (16, 16), (16, 30)} \<longrightarrow>
        estimate_total_mines (shape board)
          = \<lfloor>real (fst (shape board) * snd (shape board)) * 0.15\<rfloor>)
   \<and> (shape board = (9, 9) \<and> list_all (\<lambda>rc. cell board rc = ''covered'') (grid (9, 9))
        \<longrightarrow> calculate_probabilities it board
              = Inr (map (\<lambda>cell. (cell, 10 / 81)) (grid (9, 9))))"
proof (intro conjI impI)
  assume a: "build_constraint_set board = Inr constraints \<and>
    (constraints = [] \<or>
     enumerate_valid_configurations it constraints (MAX_CONFIGURATIONS config) = [])"
  then show p: "calculate_probabilities it board
          = Inr (map (\<lambda>cell. (cell,
                   real_of_int (max 0 (estimate_total_mines (shape board)
                                        - int (flagged_count_of board)))
                     / real (length (covered_cells_of board))))
                 (covered_cells_of board))"
    using calculate_probabilities_fallback[of board constraints it]
    by (simp add: uniform_probability_def)
  assume "covered_cells_of board = []"
  then show "calculate_probabilities it board = Inr []" using p by simp
next
  show "estimate_total_mines (9, 9) = 10" "estimate_total_mines (16, 16) = 40"
    "estimate_total_mines (16, 30) = 99"
    by (simp_all add: estimate_total_mines_def)
next
  assume "shape board \<notin> {(9, 9), (16, 16), (16, 30)}"
  then show "estimate_total_mines (shape board)
             = \<lfloor>real (fst (shape board) * snd (shape board)) * 0.15\<rfloor>"
    by (rule estimate_other_shape)
next
  assume a: "shape board = (9, 9) \<and> list_all (\<lambda>rc. cell board rc = ''covered'') (grid (9, 9))"
  then have sh: "shape board = (9, 9)"
    and "list_all (\<lambda>rc. cell board rc = ''covered'') (grid (shape board))"
    by simp_all
  note b = all_covered_board[OF this(2)]
  have "uniform_probability board = 10 / 81"
    by (simp add: uniform_probability_def b estimate_total_mines_def length_grid sh)
  then show "calculate_probabilities it board = Inr (map (\<lambda>cell. (cell, 10 / 81)) (grid (9, 9)))"
    using calculate_probabilities_fallback[of board "[]" it] b by (simp add: sh)
qed


lemma unsatisfiable_example:
  "build_constraint_set (np_array [[''5'', ''covered'']]) = Inr [({(0, 1)}, 5)]"
  "enumerate_valid_configurations sorted_order [({(0, 1)}, 5)]
     (MAX_CONFIGURATIONS config) = []"
  "covered_cells_of (np_array [[''5'', ''covered'']]) = [(0, 1)]"
  "flagged_count_of (np_array [[''5'', ''covered'']]) = 0"
  "estimate_total_mines (shape (np_array [[''5'', ''covered'']])) = 0"
  by code_simp+

theorem uniform_fallback_witness:
  "calculate_probabilities sorted_order (all_covered 9 9)
     = Inr (map (\<lambda>cell. (cell, 10 / 81)) (grid (9, 9)))
   \<and> calculate_probabilities sorted_order (np_array [[''5'', ''covered'']])
     = Inr [((0, 1), 0)]"
proof -
  have "list_all (\<lambda>rc. cell (all_covered 9 9) rc = ''covered'') (grid (9, 9))"
    by (simp add: list_all_iff cell_def all_covered_def)
  then have 1: "calculate_probabilities sorted_order (all_covered 9 9)
     = Inr (map (\<lambda>cell. (cell, 10 / 81)) (grid (9, 9)))"
    using uniform_fallback[of "all_covered 9 9" "[]" sorted_order]
    by (simp add: all_covered_def)
  have 2: "calculate_probabilities sorted_order (np_array [[''5'', ''covered'']])
     = Inr [((0, 1), 0)]"
    using uniform_fallback[of "np_array [[''5'', ''covered'']]" "[({(0, 1)}, 5)]"
        sorted_order]
    by (simp add: unsatisfiable_example)
  show ?thesis using 1 2 by (rule conjI)
qed

text \<open>
  The claim as it was stated rounds \<open>rows * cols * 0.15\<close> to the nearest integer. On
  the board of 2 by 2 covered cells that would be one mine and the probability 1/4; the
  code truncates 0.6 to no mine and gives every cell the probability 0.
\<close>

theorem uniform_fallback_round_counterexample:
  "build_constraint_set (all_covered 2 2) = Inr []
   \<and> calculate_probabilities sorted_order (all_covered 2 2)
       = Inr (map (\<lambda>cell. (cell, 0)) (grid (2, 2)))
   \<and> real_of_int (max 0 (spec_total_mines (shape (all_covered 2 2))
                           - int (flagged_count_of (all_covered 2 2))))
       / real (length (covered_cells_of (all_covered 2 2))) = 1 / 4"
proof -
  have sh: "shape (all_covered 2 2) = (2, 2)" by (simp add: all_covered_def)
  have "list_all (\<lambda>rc. cell (all_covered 2 2) rc = ''covered'') (grid (shape (all_covered 2 2)))"
    by (simp add: list_all_iff cell_def all_covered_def)
  note b = all_covered_board[OF this]
  have "uniform_probability (all_covered 2 2) = 0"
    by (simp add: uniform_probability_def sh b estimate_total_mines_def length_grid)
  then have 2: "calculate_probabilities sorted_order (all_covered 2 2)
       = Inr (map (\<lambda>cell. (cell, 0)) (grid (2, 2)))"
    using calculate_probabilities_fallback[of "all_covered 2 2" "[]" sorted_order] b
    by (simp add: sh)
  have "round (real (2 * 2) * 0.15) = 1"
    by (simp add: round_def)
  then have 3: "real_of_int (max 0 (spec_total_mines (shape (all_covered 2 2))
                           - int (flagged_count_of (all_covered 2 2))))
       / real (length (covered_cells_of (all_covered 2 2))) = 1 / 4"
    by (simp add: spec_total_mines_def sh b length_grid)
  show ?thesis using b(1) 2 3 by (intro conjI)
qed


section \<open>The range of the probabilities\<close>

text \<open>
  The probabilities computed from enumerated configurations lie between 0 and 1.
\<close>

lemma enumerated_probability_bounds:
  assumes "set_iteration it"
    and "build_constraint_set board = Inr constraints" "constraints \<noteq> []"
    and "enumerate_valid_configurations it constraints (MAX_CONFIGURATIONS config) \<noteq> []"
    and "calculate_probabilities it board = Inr probabilities"
    and "(c, p) \<in> set probabilities"
  shows "0 \<le> p \<and> p \<le> 1"
proof -
  let ?confs = "enumerate_valid_configurations it constraints (MAX_CONFIGURATIONS config)"
  obtain ps where ps: "calculate_probabilities it board = Inr ps"
    "distinct (map fst ps)"
    "\<forall>c. map_of ps c = (if c \<in> \<Union> (set ?confs)
                          then Some (real (containing ?confs c) / real (length ?confs))
                          else None)"
    using probabilities_frequencies[OF assms(1,2,3) refl assms(4)] by blast
  have eq: "probabilities = ps" using ps(1) assms(5) by simp
  have "map_of ps c = Some p" using assms(6) ps(2) unfolding eq by simp
  then have p: "p = real (containing ?confs c) / real (length ?confs)"
    using ps(3) by (simp split: if_splits)
  have "containing ?confs c \<le> length ?confs" by (simp add: containing_def)
  moreover have "0 < length ?confs" using assms(4) by simp
  ultimately show ?thesis unfolding p by simp
qed


text \<open>
  Claim C8 fails on the uniform estimate. On a board of 2 by 7 with one covered cell, no
  flag and no numbered cell, the estimate of the mine count is 2 and the one covered cell
  gets the probability 2.
\<close>

theorem fallback_probability_above_one:
  "calculate_probabilities it
     (np_array [[''covered'', ''uncovered'', ''uncovered'', ''uncovered'', ''uncovered'',
                 ''uncovered'', ''uncovered''],
                [''uncovered'', ''uncovered'', ''uncovered'', ''uncovered'', ''uncovered'',
                 ''uncovered'', ''uncovered'']])
   = Inr [((0, 0), 2)]"
  by code_simp

section \<open>The phases of the solver\<close>

lemma min_item_props:
  "min_item best items \<in> set (best # items)
   \<and> (\<forall>x \<in> set (best # items). snd (min_item best items) \<le> snd x)"
proof (induction items arbitrary: best)
  case Nil
  then show ?case by simp
next
  case (Cons item items)
  let ?b = "if snd item < snd best then item else best"
  have IH: "min_item ?b items \<in> set (?b # items)"
    "\<forall>x \<in> set (?b # items). snd (min_item ?b items) \<le> snd x"
    using Cons.IH[of ?b] by simp_all
  have le: "snd (min_item ?b items) \<le> snd ?b" using IH(2) by simp
  have 1: "min_item best (item # items) \<in> set (best # item # items)"
    using IH(1) by (auto split: if_splits)
  have 2: "snd (min_item ?b items) \<le> snd best" "snd (min_item ?b items) \<le> snd item"
    using le by (auto split: if_splits)
  show ?case using 1 2 IH(2) by simp
qed

lemma get_safest_cell_min:
  assumes "probabilities \<noteq> []"
  shows "\<exists>c p. get_safest_cell probabilities = Some c \<and> (c, p) \<in> set probabilities
             \<and> (\<forall>(c', p') \<in> set probabilities. p \<le> p')"
proof -
  obtain item items where ps: "probabilities = item # items"
    using assms by (cases probabilities) auto
  let ?m = "min_item item items"
  have "get_safest_cell probabilities = Some (fst ?m)"
    by (simp add: get_safest_cell_def ps)
  moreover have "(fst ?m, snd ?m) \<in> set probabilities"
    using min_item_props[of item items] by (simp add: ps)
  moreover have "\<forall>(c', p') \<in> set probabilities. snd ?m \<le> p'"
    using min_item_props[of item items] unfolding ps by fastforce
  ultimately show ?thesis by blast
qed

lemma probability_phase_reveal:
  assumes "calculate_probabilities it board = Inr probabilities" "probabilities \<noteq> []"
  shows "\<exists>c p. probability_phase it board = Inr [(c, ''reveal'')] \<and> (c, p) \<in> set probabilities
             \<and> (\<forall>(c', p') \<in> set probabilities. p \<le> p')"
proof -
  obtain c p where c: "get_safest_cell probabilities = Some c" "(c, p) \<in> set probabilities"
    "\<forall>(c', p') \<in> set probabilities. p \<le> p'"
    using get_safest_cell_min[OF assms(2)] by blast
  have "probability_phase it board = Inr [(c, ''reveal'')]"
    using assms c(1) by (simp add: probability_phase_def config_simps)
  then show ?thesis using c(2,3) by blast
qed


text \<open>
  Claim C5. With the default configuration, \<open>solve\<close> returns the moves of the logic
  rules when there is at least one. When there is none and the dictionary of
  probabilities is not empty, \<open>solve\<close> returns exactly one move, which reveals a
  coordinate whose probability no other coordinate of the dictionary undercuts. For
  the dictionary \<open>{(0,0): 0.8, (0,1): 0.2, (1,0): 0.5}\<close> the safest cell is (0,1).
\<close>

theorem solve_phases:
  "(apply_logic_rules it board = Inr moves \<and> moves \<noteq> [] \<longrightarrow> solve it board = Inr moves)
   \<and> (apply_logic_rules it board = Inr [] \<and>
       calculate_probabilities it board = Inr probabilities \<and> probabilities \<noteq> []
       \<longrightarrow> (\<exists>c p. solve it board = Inr [(c, ''reveal'')] \<and> (c, p) \<in> set probabilities
                  \<and> (\<forall>(c', p') \<in> set probabilities. p \<le> p')))
   \<and> get_safest_cell [((0, 0), 0.8), ((0, 1), 0.2), ((1, 0), 0.5)] = Some (0, 1)"
proof (intro conjI impI)
  assume "apply_logic_rules it board = Inr moves \<and> moves \<noteq> []"
  then show "solve it board = Inr moves"
    by (simp add: solve_def config_simps)
next
  assume a: "apply_logic_rules it board = Inr [] \<and>
       calculate_probabilities it board = Inr probabilities \<and> probabilities \<noteq> []"
  then have "solve it board = probability_phase it board"
    by (simp add: solve_def config_simps)
  then show "\<exists>c p. solve it board = Inr [(c, ''reveal'')] \<and> (c, p) \<in> set probabilities
                  \<and> (\<forall>(c', p') \<in> set probabilities. p \<le> p')"
    using probability_phase_reveal[of it board probabilities] a by simp
next
  show "get_safest_cell [((0, 0), 0.8), ((0, 1), 0.2), ((1, 0), 0.5)] = Some (0, 1)"
    by (simp add: get_safest_cell_def)
qed


lemma logic_flag_example:
  "apply_logic_rules sorted_order (np_array [[''1'', ''covered'']])
   = Inr [((0, 1), ''flag'')]"
  by code_simp

lemma logic_none_example:
  "apply_logic_rules sorted_order (np_array [[''covered'']]) = Inr []"
  by code_simp

lemma probabilities_example:
  "calculate_probabilities sorted_order (np_array [[''covered'']]) = Inr [((0, 0), 0)]"
  by code_simp

theorem solve_phases_witness:
  "solve sorted_order (np_array [[''1'', ''covered'']]) = Inr [((0, 1), ''flag'')]
   \<and> solve sorted_order (np_array [[''covered'']]) = Inr [((0, 0), ''reveal'')]"
proof -
  have 1: "solve sorted_order (np_array [[''1'', ''covered'']]) = Inr [((0, 1), ''flag'')]"
    using solve_phases[of sorted_order "np_array [[''1'', ''covered'']]"
        "[((0, 1), ''flag'')]"] logic_flag_example
    by simp
  have "\<exists>c p. solve sorted_order (np_array [[''covered'']]) = Inr [(c, ''reveal'')]
          \<and> (c, p) \<in> set [((0, 0), 0 :: real)]"
    using solve_phases[of sorted_order "np_array [[''covered'']]" _ "[((0, 0), 0)]"]
      logic_none_example probabilities_example
    by simp
  then have 2: "solve sorted_order (np_array [[''covered'']]) = Inr [((0, 0), ''reveal'')]"
    by auto
  show ?thesis using 1 2 by (rule conjI)
qed

section \<open>The guess\<close>

lemma first_covered_closed:
  "\<forall>rc \<in> set rcs. in_bounds board rc \<Longrightarrow>
   first_covered board rcs = Inr (find (\<lambda>rc. cell board rc = ''covered'') rcs)"
  by (induction rcs) (simp_all add: getitem_in_bounds config_simps)

lemma guess_order_in_bounds:
  assumes "0 < fst (shape board)" "0 < snd (shape board)"
  shows "\<forall>rc \<in> set (guess_order (shape board)). in_bounds board rc"
proof -
  have "\<forall>rc \<in> set (grid (shape board)). in_bounds board rc"
    by (simp add: grid_in_bounds)
  then show ?thesis
    using assms by (auto simp: guess_order_def Let_def in_bounds_def)
qed

lemma make_guess_closed:
  assumes "0 < fst (shape board)" "0 < snd (shape board)"
  shows "make_guess board
         = Inr (case find (\<lambda>rc. cell board rc = ''covered'') (guess_order (shape board)) of
                  None \<Rightarrow> []
                | Some rc \<Rightarrow> [(rc, ''reveal'')])"
  using guess_order_in_bounds[OF assms]
  by (simp add: make_guess_def first_covered_closed split: option.splits)

lemma make_guess_empty_shape:
  assumes "fst (shape board) = 0 \<or> snd (shape board) = 0"
  shows "make_guess board = Inl IndexError"
proof -
  have "getitem board (0, 0) = Inl IndexError"
    using assms by (auto simp: getitem_def wrap_index_def)
  then show ?thesis
    by (simp add: make_guess_def guess_order_def Let_def)
qed

lemma make_guess_none_covered:
  assumes "0 < fst (shape board)" "0 < snd (shape board)" "covered_cells_of board = []"
  shows "make_guess board = Inr []"
proof -
  have "\<forall>rc \<in> set (grid (shape board)). cell board rc \<noteq> ''covered''"
    using assms(3) by (simp add: covered_cells_of_def filter_empty_conv)
  then have "\<forall>rc \<in> set (guess_order (shape board)). cell board rc \<noteq> ''covered''"
    using guess_order_in_bounds[OF assms(1,2)] by (simp add: grid_in_bounds)
  then have "find (\<lambda>rc. cell board rc = ''covered'') (guess_order (shape board)) = None"
    by (simp add: find_None_iff)
  then show ?thesis by (simp add: make_guess_closed[OF assms(1,2)])
qed

lemma solve_guess:
  assumes "apply_logic_rules it board = Inr []" "calculate_probabilities it board = Inr []"
  shows "solve it board = make_guess board"
  using assms by (simp add: solve_def probability_phase_def config_simps)

lemma solve_guess_phase:
  assumes "0 < fst (shape board)" "0 < snd (shape board)"
    and "apply_logic_rules it board = Inr []" "calculate_probabilities it board = Inr []"
  shows "solve it board
         = Inr (case find (\<lambda>rc. cell board rc = ''covered'') (guess_order (shape board)) of
                  None \<Rightarrow> []
                | Some rc \<Rightarrow> [(rc, ''reveal'')])"
    and "covered_cells_of board = [] \<Longrightarrow> solve it board = Inr []"
proof -
  have s: "solve it board = make_guess board" using assms(3,4) by (rule solve_guess)
  show "solve it board
         = Inr (case find (\<lambda>rc. cell board rc = ''covered'') (guess_order (shape board)) of
                  None \<Rightarrow> []
                | Some rc \<Rightarrow> [(rc, ''reveal'')])"
    unfolding s using assms(1,2) by (rule make_guess_closed)
  show "covered_cells_of board = [] \<Longrightarrow> solve it board = Inr []"
    unfolding s using assms(1,2) by (rule make_guess_none_covered)
qed

lemma solve_empty_shape:
  assumes "fst (shape board) = 0 \<or> snd (shape board) = 0"
  shows "solve it board = Inl IndexError"
proof -
  have g: "grid (shape board) = []"
    using assms by (auto simp: grid_def)
  have "numbered_cells board = []" by (simp add: numbered_cells_def g)
  then have 1: "apply_logic_rules it board = Inr []"
    and c: "build_constraint_set board = Inr []"
    by (simp_all add: apply_logic_rules_closed build_constraint_set_closed readable_def)
  have "covered_cells_of board = []" by (simp add: covered_cells_of_def g)
  then have 2: "calculate_probabilities it board = Inr []"
    using calculate_probabilities_fallback[OF c, of it] by simp
  show ?thesis
    using solve_guess[OF 1 2] make_guess_empty_shape[OF assms] by simp
qed


text \<open>
  Claim C9 fails on a board without cells. On a board with at least one row and one
  column, \<open>solve_guess_phase\<close> above is the claim: the first covered cell in the order
  \<open>guess_order\<close> is revealed, and the list of moves is empty when no cell is covered.
  On the array of one row and no column, which has no covered cell, the read of the
  corner (0,0) raises IndexError.
\<close>

theorem solve_empty_board_raises:
  "solve it (np_array [[]]) = Inl IndexError
   \<and> covered_cells_of (np_array [[]]) = []"
proof
  show "solve it (np_array [[]]) = Inl IndexError"
    by (rule solve_empty_shape) (simp add: np_array_def)
  show "covered_cells_of (np_array [[]]) = []"
    by (simp add: covered_cells_of_def np_array_def grid_def)
qed


section \<open>Every move targets a covered cell of the board\<close>


lemma covered_neighbors_safe:
  "n \<in> covered_neighbors board rc \<Longrightarrow> in_bounds board n \<and> cell board n = ''covered''"
  by (simp add: covered_neighbors_def neighbors_of_iff)

lemma rule_moves_safe:
  assumes "set_iteration it" "(n, action) \<in> set (rule_moves it board rc)"
  shows "in_bounds board n \<and> cell board n = ''covered''"
proof -
  have "n \<in> set (it (Unrevealed rc) (covered_neighbors board rc))"
    using assms(2)
    by (auto simp: rule_moves_def saturation_moves_def exhaustion_moves_def split: if_splits)
  then show ?thesis
    using iteration_covered(1)[OF assms(1)] covered_neighbors_safe by blast
qed

lemma probabilities_safe:
  assumes it: "set_iteration it"
    and ps: "calculate_probabilities it board = Inr probabilities"
    and c: "(c, p) \<in> set probabilities"
  shows "in_bounds board c \<and> cell board c = ''covered''"
proof -
  obtain cs where cs: "build_constraint_set board = Inr cs"
    using ps by (auto simp: calculate_probabilities_def split: sum.splits)
  let ?confs = "enumerate_valid_configurations it cs (MAX_CONFIGURATIONS config)"
  show ?thesis
  proof (cases "cs = [] \<or> ?confs = []")
    case True
    then have "probabilities
               = map (\<lambda>cell. (cell, uniform_probability board)) (covered_cells_of board)"
      using calculate_probabilities_fallback[OF cs, of it] ps by simp
    then have "c \<in> set (covered_cells_of board)" using c by auto
    then show ?thesis by (simp add: covered_cells_of_def grid_in_bounds)
  next
    case False
    then have ne: "cs \<noteq> []" "?confs \<noteq> []" by simp_all
    obtain qs where qs: "calculate_probabilities it board = Inr qs"
      "\<forall>c. map_of qs c = (if c \<in> \<Union> (set ?confs)
                            then Some (real (containing ?confs c) / real (length ?confs))
                            else None)"
      using probabilities_frequencies[OF it cs ne(1) refl ne(2)] by blast
    have "map_of probabilities c \<noteq> None"
      using c by (metis map_of_eq_None_iff fst_conv image_eqI)
    moreover have "probabilities = qs" using qs(1) ps by simp
    moreover have "map_of qs c = (if c \<in> \<Union> (set ?confs)
                            then Some (real (containing ?confs c) / real (length ?confs))
                            else None)"
      using qs(2) by (rule spec)
    ultimately have "c \<in> \<Union> (set ?confs)"
      by (simp split: if_splits)
    then obtain S where S: "S \<in> set ?confs" "c \<in> S" by blast
    have "S \<subseteq> frontier cs"
      using enumerate_subset_frontier[OF it board_constraints(1)[OF cs] S(1)] .
    then have "c \<in> frontier cs" using S(2) by blast
    then obtain rc where "c \<in> covered_neighbors board rc"
      using board_constraints(2)[OF cs] by blast
    then show ?thesis by (rule covered_neighbors_safe)
  qed
qed

lemma make_guess_safe:
  assumes "make_guess board = Inr moves" "(c, action) \<in> set moves"
  shows "in_bounds board c \<and> cell board c = ''covered''"
proof (cases "fst (shape board) = 0 \<or> snd (shape board) = 0")
  case True
  then show ?thesis using assms(1) by (simp add: make_guess_empty_shape)
next
  case False
  then have pos: "0 < fst (shape board)" "0 < snd (shape board)" by simp_all
  have "find (\<lambda>rc. cell board rc = ''covered'') (guess_order (shape board)) = Some c"
    using assms by (auto simp: make_guess_closed[OF pos] split: option.splits)
  then have "c \<in> set (guess_order (shape board)) \<and> cell board c = ''covered''"
    by (auto simp: find_Some_iff)
  then show ?thesis using guess_order_in_bounds[OF pos] by blast
qed

lemma probability_phase_safe:
  assumes it: "set_iteration it"
    and m: "probability_phase it board = Inr moves" "(c, action) \<in> set moves"
  shows "in_bounds board c \<and> cell board c = ''covered''"
proof -
  obtain ps where ps: "calculate_probabilities it board = Inr ps"
    using m(1) by (auto simp: probability_phase_def config_simps split: sum.splits)
  show ?thesis
  proof (cases "ps = []")
    case True
    then have "make_guess board = Inr moves"
      using m(1) ps by (simp add: probability_phase_def config_simps)
    then show ?thesis using m(2) by (rule make_guess_safe)
  next
    case False
    obtain c' p where c': "probability_phase it board = Inr [(c', ''reveal'')]"
      "(c', p) \<in> set ps"
      using probability_phase_reveal[OF ps False] by blast
    then have "c = c'" using m by simp
    then show ?thesis using probabilities_safe[OF it ps c'(2)] by simp
  qed
qed


text \<open>
  Claim C10. For every board, every move in a list that \<open>solve\<close> returns has a
  coordinate inside the board, and the cell of the board at that coordinate is covered:
  reading the board at the coordinate does not raise.
\<close>

theorem solve_moves_safe:
  assumes it: "set_iteration it" and s: "solve it board = Inr moves"
  shows "\<forall>((r, c), action) \<in> set moves.
           0 \<le> r \<and> r < int (fst (shape board)) \<and> 0 \<le> c \<and> c < int (snd (shape board))
         \<and> getitem board (r, c) = Inr ''covered''"
proof -
  have "in_bounds board rc \<and> cell board rc = ''covered''" if "(rc, action) \<in> set moves"
    for rc action
  proof -
    have r: "readable board"
      using s by (auto simp: solve_def config_simps apply_logic_rules_closed split: if_splits)
    show ?thesis
    proof (cases "concat (map (rule_moves it board) (numbered_cells board)) = []")
      case True
      then have "probability_phase it board = Inr moves"
        using s r by (simp add: solve_def config_simps apply_logic_rules_closed)
      then show ?thesis using that probability_phase_safe[OF it] by blast
    next
      case False
      then have "moves = concat (map (rule_moves it board) (numbered_cells board))"
        using s r by (simp add: solve_def config_simps apply_logic_rules_closed)
      then have "\<exists>p. (rc, action) \<in> set (rule_moves it board p)"
        using that by auto
      then show ?thesis using rule_moves_safe[OF it] by blast
    qed
  qed
  then show ?thesis
    by (auto simp: in_bounds_def getitem_in_bounds)
qed


lemma solve_example:
  "solve sorted_order (np_array [[''1'', ''covered'']]) = Inr [((0, 1), ''flag'')]"
  by code_simp

theorem solve_moves_safe_witness:
  "0 \<le> (0 :: int) \<and> (0 :: int) < int (fst (shape (np_array [[''1'', ''covered'']])))
   \<and> 0 \<le> (1 :: int) \<and> (1 :: int) < int (snd (shape (np_array [[''1'', ''covered'']])))
   \<and> getitem (np_array [[''1'', ''covered'']]) (0, 1) = Inr ''covered''"
  using solve_moves_safe[OF set_iteration_sorted solve_example]
  by simp

end
